theory Spec2Isabelle
  imports Main
begin

section \<open>Identifiers and delete sets (utils/DeleteSet.js)\<close>

text \<open>
  Clocks, lengths and client identifiers are the unsigned integers of the wire format
  (\<open>readVarUint\<close>), modelled as \<open>nat\<close>. Every subtraction of the source that is
  modelled below is guarded by a comparison, so truncated subtraction never applies.
\<close>

record ID =
  client :: nat
  clock :: nat

definition createID :: "nat \<Rightarrow> nat \<Rightarrow> ID" where
  "createID c k = \<lparr>client = c, clock = k\<rparr>"

text \<open>\<open>class DeleteItem\<close>: a range \<open>[clock, clock + len)\<close> of one client.\<close>

record DeleteItem =
  dclock :: nat
  len :: nat

definition mkDeleteItem :: "nat \<Rightarrow> nat \<Rightarrow> DeleteItem" where
  "mkDeleteItem c l = \<lparr>dclock = c, len = l\<rparr>"

text \<open>
  \<open>DeleteSet.clients\<close> is a JavaScript \<open>Map\<close>, which iterates in insertion order:
  an association list with unique keys, new keys appended at the end.
\<close>

type_synonym DeleteSet = "(nat \<times> DeleteItem list) list"

text \<open>
  The merge loop of \<open>sortAndMergeDeleteSet\<close>: \<open>i\<close> is the read pointer, \<open>j\<close> the
  insert position; \<open>left = dels[j - 1]\<close>, \<open>right = dels[i]\<close>. The source mutates the
  object \<open>left\<close> in place; the only other slot that can hold the same object lies in
  \<open>[j, i)\<close>, which is never read again and is cut off at the end.
\<close>

function mergeLoop :: "nat \<Rightarrow> nat \<Rightarrow> DeleteItem list \<Rightarrow> nat \<times> DeleteItem list" where
  "mergeLoop i j dels =
     (if i < length dels then
        (let left = dels ! (j - 1); right = dels ! i in
         if dclock left + len left = dclock right
         then mergeLoop (i + 1) j (dels[j - 1 := left\<lparr>len := len left + len right\<rparr>])
         else mergeLoop (i + 1) (j + 1) (if j < i then dels[j := right] else dels))
      else (j, dels))"
  by pat_completeness auto
termination
  by (relation "measure (\<lambda>(i, j, dels). length dels - i)") auto

declare mergeLoop.simps [simp del]

text \<open>
  \<open>dels.length = j\<close>: truncation when \<open>j \<le> dels.length\<close>; otherwise JavaScript
  extends the array with empty slots. A slot is \<open>Some item\<close> or the hole \<open>None\<close>.
\<close>

definition setLength :: "nat \<Rightarrow> 'a list \<Rightarrow> 'a option list" where
  "setLength n xs = map Some (take n xs) @ replicate (n - length xs) None"

text \<open>
  The body of the \<open>forEach\<close> for one client. \<open>Array.prototype.sort\<close> with the comparator
  \<open>a.clock - b.clock\<close> is a stable sort by clock.
\<close>

definition sortAndMergeDels :: "DeleteItem list \<Rightarrow> DeleteItem option list" where
  "sortAndMergeDels dels =
     (case mergeLoop 1 1 (sort_key dclock dels) of (j, ds) \<Rightarrow> setLength j ds)"

definition sortAndMergeDeleteSet :: "DeleteSet \<Rightarrow> (nat \<times> DeleteItem option list) list" where
  "sortAndMergeDeleteSet ds = map (\<lambda>(c, dels). (c, sortAndMergeDels dels)) ds"

text \<open>Consecutive slots hold ranges with \<open>left.clock + left.len < right.clock\<close>.\<close>

fun separated :: "DeleteItem option list \<Rightarrow> bool" where
  "separated [] = True"
| "separated [x] = True"
| "separated (Some l # Some r # rest) =
     (dclock l + len l < dclock r \<and> separated (Some r # rest))"
| "separated (x # y # rest) = False"

text \<open>
  Auxiliary predicates on ranges: \<open>before a b\<close> when \<open>a\<close> ends at or before the start
  of \<open>b\<close>, \<open>apart a b\<close> when it ends strictly before it. \<open>disjointRanges\<close> holds
  of an array whose ranges are non-empty and pairwise non-overlapping, as the delete set of
  a transaction is (every unit is deleted at most once).
\<close>

definition dend :: "DeleteItem \<Rightarrow> nat" where "dend d = dclock d + len d"
definition before :: "DeleteItem \<Rightarrow> DeleteItem \<Rightarrow> bool" where "before a b = (dend a \<le> dclock b)"
definition apart :: "DeleteItem \<Rightarrow> DeleteItem \<Rightarrow> bool" where "apart a b = (dend a < dclock b)"

fun disjointRanges :: "DeleteItem list \<Rightarrow> bool" where
  "disjointRanges [] = True"
| "disjointRanges (x # xs) = (0 < len x \<and> list_all (\<lambda>y. before x y \<or> before y x) xs \<and> disjointRanges xs)"

section \<open>Structs (Item, GC) and the struct store (utils/StructStore.js)\<close>

text \<open>
  The failures of the source: \<open>error.unexpectedCase()\<close>, thrown explicitly, the
  \<open>TypeError\<close> JavaScript raises when a property of \<open>undefined\<close> is read, and the
  failure of the decoder on a short read.
\<close>

datatype error = UnexpectedCase | TypeError | ShortRead

text \<open>
  The fields of \<open>AbstractItem\<close>, as the constructor of \<open>ItemString\<close> passes them to
  \<open>super\<close>. The source links structs by object reference; here a reference to a struct
  is the \<open>ID\<close> of its first unit and a reference to a shared type is its index in a
  table of types. \<open>deleted\<close> is the flag of the item.
\<close>

record AbstractItem =
  left :: "ID option"
  origin :: "ID option"
  right :: "ID option"
  rightOrigin :: "ID option"
  parent :: nat
  parentSub :: "string option"
  deleted :: bool

text \<open>
  The concrete variants: \<open>ItemString\<close> (its class is in the source) and \<open>GC\<close>.
  Modelled from the spec: the class \<open>GC\<close> is imported by the source and not part of it;
  by the spec it has only an id and a length, and it counts as deleted.
\<close>

datatype AbstractStruct =
    GC ID nat
  | ItemString ID AbstractItem string

fun struct_id :: "AbstractStruct \<Rightarrow> ID" where
  "struct_id (GC i n) = i"
| "struct_id (ItemString i it s) = i"

text \<open>\<open>get length ()\<close>: of an \<open>ItemString\<close> it is \<open>this.string.length\<close>.\<close>

fun struct_length :: "AbstractStruct \<Rightarrow> nat" where
  "struct_length (GC i n) = n"
| "struct_length (ItemString i it s) = length s"

fun struct_deleted :: "AbstractStruct \<Rightarrow> bool" where
  "struct_deleted (GC i n) = True"
| "struct_deleted (ItemString i it s) = deleted it"

text \<open>\<open>struct.constructor === GC\<close>\<close>

fun isGC :: "AbstractStruct \<Rightarrow> bool" where
  "isGC (GC i n) = True"
| "isGC (ItemString i it s) = False"

definition sclock :: "AbstractStruct \<Rightarrow> nat" where
  "sclock s = clock (struct_id s)"

definition send :: "AbstractStruct \<Rightarrow> nat" where
  "send s = sclock s + struct_length s"

text \<open>
  \<open>class StructStore\<close>: \<open>clients\<close> maps a client to its array of structs, and
  \<open>clientKeys\<close> lists the keys of that \<open>Map\<close> in insertion order (the order in which
  \<open>forEach\<close> visits them); \<open>pendingDeleteReaders\<close> holds decoders, each the sequence
  of unsigned integers it still has to deliver. (The pending struct references are not
  used by the functions modelled here.)
\<close>

record StructStore =
  clients :: "nat \<rightharpoonup> AbstractStruct list"
  clientKeys :: "nat list"
  pendingDeleteReaders :: "nat list list"

definition getState :: "StructStore \<Rightarrow> nat \<Rightarrow> error + nat" where
  "getState store c =
     (case clients store c of
        None \<Rightarrow> Inr 0
      | Some structs \<Rightarrow>
          (if structs = [] then Inl TypeError
           else Inr (sclock (last structs) + struct_length (last structs))))"

text \<open>\<open>integretyCheck\<close>, for one client's array: the loop from \<open>i = 1\<close>.\<close>

fun integretyCheckFrom :: "AbstractStruct \<Rightarrow> AbstractStruct list \<Rightarrow> error + unit" where
  "integretyCheckFrom l [] = Inr ()"
| "integretyCheckFrom l (r # rest) =
     (if sclock l + struct_length l \<noteq> sclock r then Inl UnexpectedCase
      else integretyCheckFrom r rest)"

definition integretyCheck :: "AbstractStruct list \<Rightarrow> error + unit" where
  "integretyCheck structs = (case structs of [] \<Rightarrow> Inr () | l # rest \<Rightarrow> integretyCheckFrom l rest)"

text \<open>The per-client contiguity invariant: the array passes the integrity check.\<close>

definition contiguous :: "AbstractStruct list \<Rightarrow> bool" where
  "contiguous structs = (integretyCheck structs = Inr ())"

definition addStruct :: "StructStore \<Rightarrow> AbstractStruct \<Rightarrow> error + StructStore" where
  "addStruct store struct =
     (case clients store (client (struct_id struct)) of
        None \<Rightarrow> Inr (store\<lparr>clients := (clients store)(client (struct_id struct) \<mapsto> [struct]),
                            clientKeys := clientKeys store @ [client (struct_id struct)]\<rparr>)
      | Some structs \<Rightarrow>
          (if structs = [] then Inl TypeError
           else if sclock (last structs) + struct_length (last structs) \<noteq> sclock struct
           then Inl UnexpectedCase
           else Inr (store\<lparr>clients :=
                  (clients store)(client (struct_id struct) \<mapsto> structs @ [struct])\<rparr>)))"

text \<open>
  \<open>findIndexSS\<close>: the binary search. \<open>left\<close> and \<open>right\<close> are integers, since
  \<open>right\<close> starts at \<open>structs.length - 1\<close> and may become \<open>-1\<close>. Reading
  \<open>structs[midindex]\<close> outside the array gives \<open>undefined\<close>, whose \<open>.id\<close> raises.
\<close>

function findIndexSS_loop :: "AbstractStruct list \<Rightarrow> nat \<Rightarrow> int \<Rightarrow> int \<Rightarrow> error + nat" where
  "findIndexSS_loop structs clk l r =
     (if l \<le> r then
        (let midindex = (l + r) div 2 in
         if midindex < 0 \<or> int (length structs) \<le> midindex then Inl TypeError
         else
           (let mid = structs ! nat midindex; midclock = sclock mid in
            if midclock \<le> clk then
              (if clk < midclock + struct_length mid then Inr (nat midindex)
               else findIndexSS_loop structs clk (midindex + 1) r)
            else findIndexSS_loop structs clk l (midindex - 1)))
      else Inl UnexpectedCase)"
  by pat_completeness auto
termination
  by (relation "measure (\<lambda>(structs, clk, l, r). nat (r - l + 1))") auto

declare findIndexSS_loop.simps [simp del]

definition findIndexSS :: "AbstractStruct list \<Rightarrow> nat \<Rightarrow> error + nat" where
  "findIndexSS structs clk = findIndexSS_loop structs clk 0 (int (length structs) - 1)"

text \<open>\<open>covers s k\<close>: the unit \<open>k\<close> lies in the half-open interval of \<open>s\<close>.\<close>

definition covers :: "AbstractStruct \<Rightarrow> nat \<Rightarrow> bool" where
  "covers s k = (sclock s \<le> k \<and> k < sclock s + struct_length s)"

section \<open>Splitting structs; clean starts and ends\<close>

text \<open>
  Modelled from the spec: \<open>splitItem\<close> is imported by \<open>ItemString.splitAt\<close> and not part
  of the source. By the spec, splitting at offset \<open>diff\<close> keeps the left half at the
  original ID and produces a right half with ID \<open>(client, clock + diff)\<close> carrying the
  same parent and parentSub, linked such that \<open>this.right = right\<close> and
  \<open>right.left = this\<close>. The fields the spec leaves open are filled as the parameters of
  \<open>copy\<close> suggest: the right half keeps the old \<open>right\<close> and \<open>rightOrigin\<close> and the
  \<open>deleted\<close> flag, and its origin is the last unit of the left half. It returns the
  updated left fields and the id and fields of the right half.
\<close>

definition splitItem :: "ID \<Rightarrow> AbstractItem \<Rightarrow> nat \<Rightarrow> AbstractItem \<times> ID \<times> AbstractItem" where
  "splitItem i it diff =
     (let rid = createID (client i) (clock i + diff) in
      (it\<lparr>right := Some rid\<rparr>,
       rid,
       it\<lparr>left := Some i, origin := Some (createID (client i) (clock i + diff - 1))\<rparr>))"

text \<open>
  \<open>splitAt(transaction, diff)\<close> returns the right half and shortens \<open>this\<close>; the model
  returns the shortened left half and the right half. \<open>ItemString.splitAt\<close> is in the
  source: \<open>right.string = this.string.slice(diff)\<close>,
  \<open>this.string = this.string.slice(0, diff)\<close>.
  Modelled from the spec: \<open>GC.splitAt\<close> is not part of the source and is ``purely
  arithmetic''.
\<close>

fun splitAt :: "AbstractStruct \<Rightarrow> nat \<Rightarrow> AbstractStruct \<times> AbstractStruct" where
  "splitAt (ItemString i it s) diff =
     (case splitItem i it diff of
        (lit, rid, rit) \<Rightarrow> (ItemString i lit (take diff s), ItemString rid rit (drop diff s)))"
| "splitAt (GC i n) diff =
     (GC i diff, GC (createID (client i) (clock i + diff)) (n - diff))"

text \<open>\<open>structs.splice(pos, 0, x)\<close>: insert \<open>x\<close> at position \<open>pos\<close>.\<close>

definition splice_insert :: "nat \<Rightarrow> 'a \<Rightarrow> 'a list \<Rightarrow> 'a list" where
  "splice_insert pos x xs = take pos xs @ x # drop pos xs"

text \<open>
  \<open>getItemCleanStart\<close> and \<open>getItemCleanEnd\<close> return the new store and the struct the
  source returns. A client without an entry gives \<open>structs = undefined\<close>, whose
  \<open>.length\<close> raises in \<open>findIndexSS\<close>. The transaction argument is only handed on
  to \<open>splitAt\<close>, which by the spec records nothing in it, so it is not threaded. In \<open>getItemCleanEnd\<close> the returned reference is the
  object that \<open>splitAt\<close> has shortened, so the model returns the shortened left half.
\<close>

definition getItemCleanStart :: "StructStore \<Rightarrow> ID \<Rightarrow> error + (StructStore \<times> AbstractStruct)" where
  "getItemCleanStart store i =
     (case clients store (client i) of
        None \<Rightarrow> Inl TypeError
      | Some structs \<Rightarrow>
          (case findIndexSS structs (clock i) of
             Inl e \<Rightarrow> Inl e
           | Inr index \<Rightarrow>
               (let struct = structs ! index in
                if sclock struct < clock i \<and> \<not> isGC struct then
                  (case splitAt struct (clock i - sclock struct) of
                     (l, r) \<Rightarrow>
                       Inr (store\<lparr>clients := (clients store)(client i \<mapsto>
                                splice_insert (index + 1) r (structs[index := l]))\<rparr>, r))
                else Inr (store, struct))))"

definition getItemCleanEnd :: "StructStore \<Rightarrow> ID \<Rightarrow> error + (StructStore \<times> AbstractStruct)" where
  "getItemCleanEnd store i =
     (case clients store (client i) of
        None \<Rightarrow> Inl TypeError
      | Some structs \<Rightarrow>
          (case findIndexSS structs (clock i) of
             Inl e \<Rightarrow> Inl e
           | Inr index \<Rightarrow>
               (let struct = structs ! index in
                if int (clock i) \<noteq> int (sclock struct) + int (struct_length struct) - 1 \<and>
                   \<not> isGC struct then
                  (case splitAt struct (clock i - sclock struct + 1) of
                     (l, r) \<Rightarrow>
                       Inr (store\<lparr>clients := (clients store)(client i \<mapsto>
                                splice_insert (index + 1) r (structs[index := l]))\<rparr>, l))
                else Inr (store, struct))))"

text \<open>
  \<open>inState store i\<close>: the clock of \<open>i\<close> lies within the known state of its client, whose
  array satisfies the contiguity invariant.
\<close>

definition inState :: "StructStore \<Rightarrow> ID \<Rightarrow> bool" where
  "inState store i =
     (case clients store (client i) of
        None \<Rightarrow> False
      | Some structs \<Rightarrow>
          contiguous structs \<and> structs \<noteq> [] \<and> sclock (hd structs) \<le> clock i \<and>
          clock i < send (last structs))"

section \<open>Merging structs (\<open>tryToMergeWithLeft\<close> of utils/Transaction.js)\<close>

text \<open>
  A shared type, as far as the functions modelled here read it: \<open>tmap\<close> is the field
  \<open>_map\<close> (from sub-key to the latest item at that key, a reference to a struct) and
  \<open>titem\<close> the field \<open>_item\<close> (the item that holds the type, \<open>None\<close> for a root type).
  Modelled from the spec: the class \<open>AbstractType\<close> is not part of the source; by the
  spec a shared type has, besides these, a parent chain (\<open>ancestors\<close>: the types reached
  from it by walking up, nearest first). The table of types maps a reference to its object.
\<close>

record AbstractType =
  tmap :: "string \<rightharpoonup> ID"
  titem :: "ID option"
  ancestors :: "nat list"

type_synonym types = "nat \<Rightarrow> AbstractType"

text \<open>
  Modelled from the spec: \<open>mergeItemWith\<close> is imported by \<open>ItemString.mergeWith\<close> and not
  part of the source. By the spec a merge succeeds iff both structs have the same client,
  \<open>this.clock + this.length == right.clock\<close>, the same \<open>deleted\<close> flag, the same concrete
  variant, the same parent and parentSub, \<open>right.origin == this.lastId\<close> and
  \<open>right.left == this\<close>; the left struct then adopts \<open>right.right\<close> and
  \<open>right.rightOrigin\<close>. \<open>n\<close> is the length of the left item, whose \<open>lastId\<close> is
  \<open>(client, clock + n - 1)\<close>. The result is the updated
  left item, or \<open>None\<close> when the merge is refused (the source returns \<open>false\<close>).
\<close>

definition mergeItemWith :: "ID \<Rightarrow> AbstractItem \<Rightarrow> nat \<Rightarrow> ID \<Rightarrow> AbstractItem \<Rightarrow> AbstractItem option" where
  "mergeItemWith i it n ri rit =
     (if client i = client ri \<and> clock i + n = clock ri \<and> deleted it = deleted rit \<and>
         parent it = parent rit \<and> parentSub it = parentSub rit \<and>
         (case origin rit of
            Some ro \<Rightarrow> client ro = client i \<and> int (clock ro) = int (clock i) + int n - 1
          | None \<Rightarrow> False) \<and>
         left rit = Some i
      then Some (it\<lparr>right := right rit, rightOrigin := rightOrigin rit\<rparr>)
      else None)"

text \<open>
  \<open>left.mergeWith(right)\<close>. \<open>ItemString.mergeWith\<close> is in the source: when
  \<open>mergeItemWith\<close> succeeds, \<open>this.string += right.string\<close>.
  Modelled from the spec: \<open>GC.mergeWith\<close> is not part of the source; it succeeds iff the
  right struct is a contiguous GC.
\<close>

fun mergeWith :: "AbstractStruct \<Rightarrow> AbstractStruct \<Rightarrow> AbstractStruct option" where
  "mergeWith (ItemString i it s) (ItemString ri rit rs) =
     (case mergeItemWith i it (length s) ri rit of
        Some it' \<Rightarrow> Some (ItemString i it' (s @ rs))
      | None \<Rightarrow> None)"
| "mergeWith (GC i n) (GC ri rn) =
     (if client i = client ri \<and> clock i + n = clock ri then Some (GC i (n + rn)) else None)"
| "mergeWith l r = None"

text \<open>
  \<open>tryToMergeWithLeft(structs, pos)\<close>, on the array and the table of types. Reading
  \<open>structs[pos - 1]\<close> or \<open>structs[pos]\<close> outside the array gives \<open>undefined\<close>, whose
  \<open>.deleted\<close> raises. \<open>structs.splice(pos, 1)\<close> removes the right struct; the left struct
  was updated in place by \<open>mergeWith\<close>. The comparison \<open>=== right\<close> of the map entry is
  the comparison of the reference with the id of \<open>right\<close>.
\<close>

definition tryToMergeWithLeft ::
  "types \<Rightarrow> AbstractStruct list \<Rightarrow> nat \<Rightarrow> error + (AbstractStruct list \<times> types)" where
  "tryToMergeWithLeft ts structs pos =
     (if pos = 0 \<or> length structs \<le> pos then Inl TypeError
      else
        (let l = structs ! (pos - 1); r = structs ! pos in
         if struct_deleted l = struct_deleted r \<and> isGC l = isGC r then
           (case mergeWith l r of
              Some l' \<Rightarrow>
                Inr (take pos (structs[pos - 1 := l']) @ drop (pos + 1) structs,
                     (case r of
                        ItemString ri rit rs \<Rightarrow>
                          (case parentSub rit of
                             Some sub \<Rightarrow>
                               (if tmap (ts (parent rit)) sub = Some ri
                                then ts(parent rit := (ts (parent rit))
                                       \<lparr>tmap := (tmap (ts (parent rit)))(sub \<mapsto> struct_id l')\<rparr>)
                                else ts)
                           | None \<Rightarrow> ts)
                      | GC ri rn \<Rightarrow> ts))
            | None \<Rightarrow> Inr (structs, ts))
         else Inr (structs, ts)))"

text \<open>
  \<open>isMapEntry ts r t sub\<close>: the struct \<open>r\<close> is an item with parent \<open>t\<close> and parentSub
  \<open>sub\<close>, and the map of \<open>t\<close> has \<open>r\<close> as its current entry for \<open>sub\<close>.
\<close>

fun isMapEntry :: "types \<Rightarrow> AbstractStruct \<Rightarrow> nat \<Rightarrow> string \<Rightarrow> bool" where
  "isMapEntry ts (ItemString ri rit rs) t sub =
     (parentSub rit = Some sub \<and> parent rit = t \<and> tmap (ts t) sub = Some ri)"
| "isMapEntry ts (GC ri rn) t sub = False"

section \<open>Transactions and reading a delete set (\<open>readDeleteSet\<close>)\<close>

text \<open>
  \<open>class Transaction\<close>, with the fields its constructor sets; the back reference
  \<open>doc\<close> is the state that is passed around. A \<open>Map\<close> is an association list in
  insertion order, a \<open>Set\<close> a list without duplicates. \<open>YEvent\<close> is not part of the
  source; the cleanup of a transaction reads its \<open>target\<close> and writes its
  \<open>currentTarget\<close>.
\<close>

record YEvent =
  target :: nat
  currentTarget :: nat

record Transaction =
  deleteSet :: DeleteSet
  beforeState :: "(nat \<times> nat) list"
  afterState :: "(nat \<times> nat) list"
  changed :: "(nat \<times> string option list) list"
  changedParentTypes :: "(nat \<times> YEvent list) list"
  mergeStructs :: "ID list"
  torigin :: "nat option"

text \<open>\<open>map.setIfUndefined(m, k, create)\<close> followed by an update of the value found.\<close>

fun updateOrInsert :: "'k \<Rightarrow> 'v \<Rightarrow> ('v \<Rightarrow> 'v) \<Rightarrow> ('k \<times> 'v) list \<Rightarrow> ('k \<times> 'v) list" where
  "updateOrInsert k d f [] = [(k, f d)]"
| "updateOrInsert k d f ((k', v) # m) =
     (if k' = k then (k', f v) # m else (k', v) # updateOrInsert k d f m)"

definition addToDeleteSet :: "DeleteSet \<Rightarrow> ID \<Rightarrow> nat \<Rightarrow> DeleteSet" where
  "addToDeleteSet ds i n =
     updateOrInsert (client i) [] (\<lambda>dels. dels @ [mkDeleteItem (clock i) n]) ds"

text \<open>
  \<open>writeDeleteSet\<close>: the sequence of unsigned integers written to the encoder. The
  decoder is the sequence of unsigned integers still to be read; \<open>readVarUint\<close> fails on
  an empty one.
\<close>

definition writeDeleteSet :: "DeleteSet \<Rightarrow> nat list" where
  "writeDeleteSet ds =
     length ds #
     concat (map (\<lambda>(c, dsitems).
        c # length dsitems # concat (map (\<lambda>item. [dclock item, len item]) dsitems)) ds)"

definition readVarUint :: "nat list \<Rightarrow> error + (nat \<times> nat list)" where
  "readVarUint decoder = (case decoder of [] \<Rightarrow> Inl ShortRead | n # rest \<Rightarrow> Inr (n, rest))"

text \<open>
  Modelled from the spec: \<open>delete(transaction)\<close> of an item is not part of the source. By
  the spec it marks the item deleted, adds it to the delete set of the transaction, adds
  the item's parent with its parentSub to \<open>changed\<close>, and walks up recording the ancestor
  types in \<open>changedParentTypes\<close>. On a GC (already deleted) it does nothing.
\<close>

fun deleteStruct :: "types \<Rightarrow> Transaction \<Rightarrow> AbstractStruct \<Rightarrow> Transaction \<times> AbstractStruct" where
  "deleteStruct ts tx (ItemString i it s) =
     (tx\<lparr>deleteSet := addToDeleteSet (deleteSet tx) i (length s),
         changed := updateOrInsert (parent it) [] (\<lambda>subs. List.insert (parentSub it) subs) (changed tx),
         changedParentTypes :=
           fold (\<lambda>t m. updateOrInsert t [] (\<lambda>events. events) m)
             (parent it # ancestors (ts (parent it))) (changedParentTypes tx)\<rparr>,
      ItemString i (it\<lparr>deleted := True\<rparr>) s)"
| "deleteStruct ts tx (GC i n) = (tx, GC i n)"

text \<open>
  The \<open>while\<close> loop of \<open>readDeleteSet\<close> over the structs from \<open>index\<close> on.
  \<open>struct.delete(transaction)\<close> changes the object that the array holds, so the model
  writes the deleted struct back at its position. After a split, the struct read next
  is the right half, which begins at \<open>clock + len\<close> and ends the loop.
\<close>

function deleteLoop ::
  "types \<Rightarrow> Transaction \<Rightarrow> AbstractStruct list \<Rightarrow> nat \<Rightarrow> nat \<Rightarrow> nat \<Rightarrow>
   Transaction \<times> AbstractStruct list" where
  "deleteLoop ts tx structs index clk n =
     (if index < length structs then
        (let struct = structs ! index in
         if sclock struct < clk + n then
           (if \<not> struct_deleted struct then
              (let (struct1, structs1) =
                     (if clk + n < sclock struct + struct_length struct
                      then (case splitAt struct (clk + n - sclock struct) of
                              (l, r) \<Rightarrow> (l, splice_insert (index + 1) r (structs[index := l])))
                      else (struct, structs));
                   (tx', struct2) = deleteStruct ts tx struct1
               in deleteLoop ts tx' (structs1[index := struct2]) (index + 1) clk n)
            else deleteLoop ts tx structs (index + 1) clk n)
         else (tx, structs))
      else (tx, structs))"
  by pat_completeness auto

lemma splitAt_right_clock: "splitAt s d = (l, r) \<Longrightarrow> sclock r = sclock s + d"
  by (cases s) (auto simp: splitItem_def Let_def createID_def sclock_def)

termination deleteLoop
proof (relation "measure (\<lambda>(ts, tx, structs, index, clk, n).
          2 * (length structs - index) +
          (if index < length structs \<and> clk + n \<le> sclock (structs ! index) then 0 else 1))", goal_cases)
  case 1 show ?case by simp
next
  case (2 ts tx structs index clk n struct p struct1 structs1 q tx' struct2)
  show ?case
  proof (cases "clk + n < sclock struct + struct_length struct")
    case True
    obtain l r where sp: "splitAt struct (clk + n - sclock struct) = (l, r)"
      by (cases "splitAt struct (clk + n - sclock struct)")
    have s1: "structs1 = splice_insert (index + 1) r (structs[index := l])"
      using 2 True sp by simp
    have "sclock r = clk + n" using splitAt_right_clock[OF sp] 2 by simp
    moreover have "length structs1 = Suc (length structs)" using s1 by (simp add: splice_insert_def)
    moreover have "structs1 ! (index + 1) = r"
      using s1 2(1) by (simp add: splice_insert_def nth_append)
    ultimately show ?thesis using 2(1,2,3) by (simp add: nth_list_update)
  next
    case False
    then have "structs1 = structs" using 2 by simp
    then show ?thesis using 2(1,2,3) by auto
  qed
next
  case (3 ts tx structs index clk n struct)
  then show ?case by auto
qed


declare deleteLoop.simps [simp del]

text \<open>
  The body of the inner \<open>for\<close> loop of \<open>readDeleteSet\<close>, for one range
  \<open>(client, clk, n)\<close> read from the decoder: \<open>structs\<close> is the array of the client,
  \<open>state\<close> its state and \<open>unappliedDS\<close> the delete set of the ranges that are parked.
\<close>

definition readDeleteSet_range ::
  "types \<Rightarrow> Transaction \<Rightarrow> DeleteSet \<Rightarrow> AbstractStruct list \<Rightarrow> nat \<Rightarrow> nat \<Rightarrow> nat \<Rightarrow> nat \<Rightarrow>
   error + (Transaction \<times> DeleteSet \<times> AbstractStruct list)" where
  "readDeleteSet_range ts tx unappliedDS structs c state clk n =
     (if clk < state then
        (let unappliedDS' =
               (if state < clk + n
                then addToDeleteSet unappliedDS (createID c state) (clk + n - state)
                else unappliedDS)
         in case findIndexSS structs clk of
              Inl e \<Rightarrow> Inl e
            | Inr index \<Rightarrow>
                (let struct = structs ! index;
                     (structs1, index1) =
                       (if \<not> struct_deleted struct \<and> sclock struct < clk
                        then (case splitAt struct (clk - sclock struct) of
                                (l, r) \<Rightarrow>
                                  (splice_insert (index + 1) r (structs[index := l]), index + 1))
                        else (structs, index));
                     (tx', structs2) = deleteLoop ts tx structs1 index1 clk n
                 in Inr (tx', unappliedDS', structs2)))
      else Inr (tx, addToDeleteSet unappliedDS (createID c clk) n, structs))"

text \<open>The inner \<open>for\<close> loop: \<open>numberOfDeletes\<close> ranges are read from the decoder.\<close>

fun readDeleteSet_deletes ::
  "types \<Rightarrow> nat \<Rightarrow> nat list \<Rightarrow> Transaction \<Rightarrow> DeleteSet \<Rightarrow> AbstractStruct list \<Rightarrow> nat \<Rightarrow> nat \<Rightarrow>
   error + (nat list \<times> Transaction \<times> DeleteSet \<times> AbstractStruct list)" where
  "readDeleteSet_deletes ts 0 decoder tx unappliedDS structs c state =
     Inr (decoder, tx, unappliedDS, structs)"
| "readDeleteSet_deletes ts (Suc k) decoder tx unappliedDS structs c state =
     (case readVarUint decoder of
        Inl e \<Rightarrow> Inl e
      | Inr (clk, decoder1) \<Rightarrow>
          (case readVarUint decoder1 of
             Inl e \<Rightarrow> Inl e
           | Inr (n, decoder2) \<Rightarrow>
               (case readDeleteSet_range ts tx unappliedDS structs c state clk n of
                  Inl e \<Rightarrow> Inl e
                | Inr (tx', unappliedDS', structs') \<Rightarrow>
                    readDeleteSet_deletes ts k decoder2 tx' unappliedDS' structs' c state)))"

text \<open>
  The outer \<open>for\<close> loop. \<open>store.clients.get(client) || []\<close> is the array of the store
  (changed in place, so written back here) or a fresh empty array for an unknown client.
\<close>

fun readDeleteSet_clients ::
  "types \<Rightarrow> nat \<Rightarrow> nat list \<Rightarrow> Transaction \<Rightarrow> DeleteSet \<Rightarrow> StructStore \<Rightarrow>
   error + (nat list \<times> Transaction \<times> DeleteSet \<times> StructStore)" where
  "readDeleteSet_clients ts 0 decoder tx unappliedDS store =
     Inr (decoder, tx, unappliedDS, store)"
| "readDeleteSet_clients ts (Suc k) decoder tx unappliedDS store =
     (case readVarUint decoder of
        Inl e \<Rightarrow> Inl e
      | Inr (c, decoder1) \<Rightarrow>
          (case readVarUint decoder1 of
             Inl e \<Rightarrow> Inl e
           | Inr (numberOfDeletes, decoder2) \<Rightarrow>
               (let structs = (case clients store c of Some ss \<Rightarrow> ss | None \<Rightarrow> []) in
                case getState store c of
                  Inl e \<Rightarrow> Inl e
                | Inr state \<Rightarrow>
                    (case readDeleteSet_deletes ts numberOfDeletes decoder2 tx unappliedDS
                            structs c state of
                       Inl e \<Rightarrow> Inl e
                     | Inr (decoder3, tx', unappliedDS', structs') \<Rightarrow>
                         readDeleteSet_clients ts k decoder3 tx' unappliedDS'
                           (case clients store c of
                              Some ss \<Rightarrow> store\<lparr>clients := (clients store)(c \<mapsto> structs')\<rparr>
                            | None \<Rightarrow> store)))))"

text \<open>
  \<open>readDeleteSet(decoder, transaction, store)\<close>: returns the rest of the decoder, the
  transaction and the store. The decoder pushed to \<open>pendingDeleteReaders\<close> reads what
  \<open>writeDeleteSet\<close> wrote for the unapplied ranges.
\<close>

definition readDeleteSet ::
  "types \<Rightarrow> nat list \<Rightarrow> Transaction \<Rightarrow> StructStore \<Rightarrow>
   error + (nat list \<times> Transaction \<times> StructStore)" where
  "readDeleteSet ts decoder tx store =
     (case readVarUint decoder of
        Inl e \<Rightarrow> Inl e
      | Inr (numClients, decoder1) \<Rightarrow>
          (case readDeleteSet_clients ts numClients decoder1 tx [] store of
             Inl e \<Rightarrow> Inl e
           | Inr (decoder2, tx', unappliedDS, store') \<Rightarrow>
               Inr (decoder2, tx',
                    if 0 < length unappliedDS
                    then store'\<lparr>pendingDeleteReaders :=
                           pendingDeleteReaders store' @ [writeDeleteSet unappliedDS]\<rparr>
                    else store')))"

text \<open>
  Auxiliary, for the proofs about \<open>deleteLoop\<close>: the same loop by recursion over the
  structs from \<open>index\<close> on, where \<open>e\<close> is the end \<open>clock + len\<close> of the range. After a
  split the loop ends, because the right half begins at \<open>e\<close>.
\<close>

fun delSuffix :: "types \<Rightarrow> Transaction \<Rightarrow> AbstractStruct list \<Rightarrow> nat \<Rightarrow> Transaction \<times> AbstractStruct list" where
  "delSuffix ts tx [] e = (tx, [])"
| "delSuffix ts tx (s # rest) e =
     (if sclock s < e then
        (if \<not> struct_deleted s then
           (if e < sclock s + struct_length s then
              (case splitAt s (e - sclock s) of
                 (l, r) \<Rightarrow> (case deleteStruct ts tx l of (tx', l') \<Rightarrow> (tx', l' # r # rest)))
            else (case deleteStruct ts tx s of
                    (tx', s') \<Rightarrow> (case delSuffix ts tx' rest e of (tx'', rest') \<Rightarrow> (tx'', s' # rest'))))
         else (case delSuffix ts tx rest e of (tx', rest') \<Rightarrow> (tx', s # rest')))
      else (tx, s # rest))"

text \<open>
  The units of a client's array: \<open>unitKnown\<close> when some struct covers the unit,
  \<open>unitDeleted\<close> when a deleted struct covers it, \<open>unitLive\<close> when a struct that is not
  deleted covers it. \<open>dsCovers ds c k\<close>: a range of client \<open>c\<close> in the delete set
  contains the unit \<open>k\<close>.
\<close>

definition unitKnown :: "AbstractStruct list \<Rightarrow> nat \<Rightarrow> bool" where
  "unitKnown structs k = list_ex (\<lambda>s. covers s k) structs"

definition unitDeleted :: "AbstractStruct list \<Rightarrow> nat \<Rightarrow> bool" where
  "unitDeleted structs k = list_ex (\<lambda>s. covers s k \<and> struct_deleted s) structs"

definition unitLive :: "AbstractStruct list \<Rightarrow> nat \<Rightarrow> bool" where
  "unitLive structs k = list_ex (\<lambda>s. covers s k \<and> \<not> struct_deleted s) structs"

definition dsCovers :: "DeleteSet \<Rightarrow> nat \<Rightarrow> nat \<Rightarrow> bool" where
  "dsCovers ds c k =
     list_ex (\<lambda>(c', dels). c' = c \<and> list_ex (\<lambda>d. dclock d \<le> k \<and> k < dclock d + len d) dels) ds"

text \<open>
  The invariant of the array stored for client \<open>c\<close>: contiguous, starting at clock 0,
  all structs owned by \<open>c\<close>. \<open>arrayState\<close> is the state of the client: the next
  expected clock, 0 for the empty array that stands for an unknown client.
  \<open>parkRange\<close> says which part of a range read from the decoder is parked: the part at
  and after the state.
\<close>

definition arrayOK :: "nat \<Rightarrow> AbstractStruct list \<Rightarrow> bool" where
  "arrayOK c structs =
     (contiguous structs \<and> list_all (\<lambda>s. client (struct_id s) = c) structs \<and>
      (case structs of [] \<Rightarrow> True | s # rest \<Rightarrow> sclock s = 0))"

definition arrayState :: "AbstractStruct list \<Rightarrow> nat" where
  "arrayState structs = (if structs = [] then 0 else send (last structs))"

definition parkRange :: "nat \<Rightarrow> nat \<Rightarrow> DeleteSet \<Rightarrow> nat \<Rightarrow> nat \<Rightarrow> DeleteSet" where
  "parkRange c state u clk n =
     (if clk < state
      then (if state < clk + n then addToDeleteSet u (createID c state) (clk + n - state) else u)
      else addToDeleteSet u (createID c clk) n)"

text \<open>
  The view of a store that the statements about \<open>readDeleteSet\<close> use: the array of a
  client (empty for an unknown client), its state, and the invariant of the whole store.
  \<open>encodeRanges\<close> and \<open>encodeClients\<close> are the parts of what \<open>writeDeleteSet\<close> writes.
  \<open>parkedRanges\<close> collects, in the order of the message, what \<open>parkRange\<close> parks.
\<close>

definition structsOf :: "StructStore \<Rightarrow> nat \<Rightarrow> AbstractStruct list" where
  "structsOf store c = (case clients store c of Some ss \<Rightarrow> ss | None \<Rightarrow> [])"

definition knownState :: "StructStore \<Rightarrow> nat \<Rightarrow> nat" where
  "knownState store c = arrayState (structsOf store c)"

definition storeOK :: "StructStore \<Rightarrow> bool" where
  "storeOK store =
     (\<forall>c. case clients store c of None \<Rightarrow> True | Some ss \<Rightarrow> ss \<noteq> [] \<and> arrayOK c ss)"

definition encodeRanges :: "DeleteItem list \<Rightarrow> nat list" where
  "encodeRanges dsitems = concat (map (\<lambda>item. [dclock item, len item]) dsitems)"

definition encodeClients :: "DeleteSet \<Rightarrow> nat list" where
  "encodeClients ds =
     concat (map (\<lambda>(c, dsitems). c # length dsitems # encodeRanges dsitems) ds)"

definition inRanges :: "DeleteItem list \<Rightarrow> nat \<Rightarrow> bool" where
  "inRanges dsitems k = list_ex (\<lambda>d. dclock d \<le> k \<and> k < dclock d + len d) dsitems"

definition parkAll :: "nat \<Rightarrow> nat \<Rightarrow> DeleteItem list \<Rightarrow> DeleteSet \<Rightarrow> DeleteSet" where
  "parkAll c state dsitems u = fold (\<lambda>item u. parkRange c state u (dclock item) (len item)) dsitems u"

fun parkedRanges :: "(nat \<Rightarrow> nat) \<Rightarrow> DeleteSet \<Rightarrow> DeleteSet \<Rightarrow> DeleteSet" where
  "parkedRanges st [] u = u"
| "parkedRanges st ((c, dsitems) # ds) u = parkedRanges st ds (parkAll c (st c) dsitems u)"

text \<open>All ranges of the message lie at or after the state of their client.\<close>

definition allUnknown :: "(nat \<Rightarrow> nat) \<Rightarrow> DeleteSet \<Rightarrow> bool" where
  "allUnknown st ds = list_all (\<lambda>(c, dsitems). list_all (\<lambda>d. st c \<le> dclock d) dsitems) ds"

section \<open>Transactions and their cleanup (\<open>transact\<close> of utils/Transaction.js)\<close>

text \<open>
  The document, as far as \<open>transact\<close> reads and writes it. Transactions are objects
  with identity (\<open>transactionCleanups[0] === doc._transaction\<close>) that are changed while
  they are referenced from several places, so they live in a heap \<open>d_heap\<close> and are
  referenced by their index in it. \<open>d_transaction\<close> is \<open>doc._transaction\<close>,
  \<open>d_transactionCleanups\<close> is \<open>doc._transactionCleanups\<close>, \<open>d_share\<close> the table of
  shared types and \<open>d_observers\<close> the event names for which \<open>doc._observers\<close> has
  listeners.
\<close>

record Doc =
  d_clientID :: nat
  d_store :: StructStore
  d_share :: types
  d_transaction :: "nat option"
  d_transactionCleanups :: "nat list"
  d_heap :: "Transaction list"
  d_observers :: "string list"

text \<open>
  What is thrown: one of the failures of the engine or an exception of user code. A call
  into code outside the engine is a function on the document that returns the document
  as it left it and the exception it threw, if any.
\<close>

datatype exn = Internal error | UserException

type_synonym callback = "Doc \<Rightarrow> Doc \<times> exn option"

text \<open>
  The code that \<open>transact\<close> calls and that is not part of the source, as parameters:
  \<^item> \<open>emit name transaction payload\<close>: \<open>doc.emit(name, ...)\<close>, the listeners of a document
    event (the payload is the update message of the event \<open>update\<close>);
  \<^item> \<open>callObserver type transaction subs\<close>: \<open>itemtype._callObserver(transaction, subs)\<close>,
    the shallow observers of a type;
  \<^item> \<open>callEventHandlerListeners type events transaction\<close>: the deep observers of a type
    (\<open>type._dEH\<close>);
  \<^item> \<open>gcReplace\<close>: the struct that \<open>struct.gc(store, false)\<close> puts in the place of a deleted
    item (by the spec a GC struct or the item with its content demoted, with the same
    interval);
  \<^item> \<open>writeStructsFromTransaction\<close>: the struct section of an update message.
\<close>

record Env =
  emit :: "string \<Rightarrow> nat \<Rightarrow> nat list \<Rightarrow> callback"
  callObserver :: "nat \<Rightarrow> nat \<Rightarrow> string option list \<Rightarrow> callback"
  callEventHandlerListeners :: "nat \<Rightarrow> YEvent list \<Rightarrow> nat \<Rightarrow> callback"
  gcReplace :: "AbstractStruct \<Rightarrow> AbstractStruct"
  writeStructsFromTransaction :: "Transaction \<Rightarrow> StructStore \<Rightarrow> nat list"

text \<open>
  \<open>getStateVector\<close>: one entry per client of the store, in the order of the \<open>Map\<close>. An
  empty array makes \<open>structs[structs.length - 1]\<close> undefined, whose \<open>.id\<close> raises.
\<close>

fun getStateVector_keys :: "StructStore \<Rightarrow> nat list \<Rightarrow> error + (nat \<times> nat) list" where
  "getStateVector_keys st [] = Inr []"
| "getStateVector_keys st (c # cs) =
     (case clients st c of
        None \<Rightarrow> getStateVector_keys st cs
      | Some structs \<Rightarrow>
          (if structs = [] then Inl TypeError
           else (case getStateVector_keys st cs of
                   Inl e \<Rightarrow> Inl e
                 | Inr sm \<Rightarrow> Inr ((c, sclock (last structs) + struct_length (last structs)) # sm))))"

definition getStateVector :: "StructStore \<Rightarrow> error + (nat \<times> nat) list" where
  "getStateVector st = getStateVector_keys st (clientKeys st)"

text \<open>\<open>new Transaction(doc, origin)\<close>, given the state vector of the store.\<close>

definition newTransaction :: "(nat \<times> nat) list \<Rightarrow> nat option \<Rightarrow> Transaction" where
  "newTransaction sv orig =
     \<lparr>deleteSet = [], beforeState = sv, afterState = [], changed = [],
      changedParentTypes = [], mergeStructs = [], torigin = orig\<rparr>"

text \<open>
  \<open>sortAndMergeDeleteSet\<close> applied in place to the delete set of a transaction. The
  arrays of such a delete set are created by \<open>addToDeleteSet\<close> with an element, so the
  result has no hole; \<open>map_filter\<close> reads the slots back as items.
\<close>

definition sortAndMergeInPlace :: "DeleteSet \<Rightarrow> DeleteSet" where
  "sortAndMergeInPlace ds =
     map (\<lambda>(c, slots). (c, List.map_filter (\<lambda>x. x) slots)) (sortAndMergeDeleteSet ds)"

text \<open>
  The pass that replaces deleted items by \<open>ItemDeleted\<close> / \<open>GC\<close>, for one range of the
  delete set on the array of its client: the \<open>for\<close> loop from \<open>si\<close> on, up to the end
  \<open>e\<close> of the range. \<open>struct instanceof AbstractItem\<close> holds of every struct but a GC.
\<close>

function gcLoop :: "Env \<Rightarrow> AbstractStruct list \<Rightarrow> nat \<Rightarrow> nat \<Rightarrow> AbstractStruct list" where
  "gcLoop env structs si e =
     (if si < length structs \<and> sclock (structs ! si) < e then
        (let struct = structs ! si in
         if e \<le> sclock struct then structs
         else gcLoop env
                (if struct_deleted struct \<and> \<not> isGC struct
                 then structs[si := gcReplace env struct] else structs)
                (si + 1) e)
      else structs)"
  by pat_completeness auto
termination
  by (relation "measure (\<lambda>(env, structs, si, e). length structs - si)") auto

declare gcLoop.simps [simp del]

text \<open>
  The loops \<open>for (let di = deleteItems.length - 1; di >= 0; di--)\<close> run over the ranges
  of a client from the last to the first; the functions below take the reversed array.
\<close>

fun gcRanges :: "Env \<Rightarrow> AbstractStruct list \<Rightarrow> DeleteItem list \<Rightarrow> AbstractStruct list \<times> error option" where
  "gcRanges env structs [] = (structs, None)"
| "gcRanges env structs (deleteItem # others) =
     (case findIndexSS structs (dclock deleteItem) of
        Inl e \<Rightarrow> (structs, Some e)
      | Inr si \<Rightarrow>
          gcRanges env (gcLoop env structs si (dclock deleteItem + len deleteItem)) others)"

text \<open>
  The loop \<open>for (si = mostRightIndexToCheck; si > 0 && struct.id.clock >= clock; --si)\<close>
  of the first merge pass, where \<open>struct = structs[si]\<close> is read after each merge. The
  functions of the passes return the arrays as they are when the pass ends or throws.
\<close>

fun mergeDownWhile ::
  "types \<Rightarrow> AbstractStruct list \<Rightarrow> nat \<Rightarrow> nat \<Rightarrow> (AbstractStruct list \<times> types) \<times> error option" where
  "mergeDownWhile ts structs 0 clk = ((structs, ts), None)"
| "mergeDownWhile ts structs (Suc si) clk =
     (if length structs \<le> Suc si then ((structs, ts), Some TypeError)
      else if clk \<le> sclock (structs ! Suc si) then
        (case tryToMergeWithLeft ts structs (Suc si) of
           Inl e \<Rightarrow> ((structs, ts), Some e)
         | Inr (structs', ts') \<Rightarrow> mergeDownWhile ts' structs' si clk)
      else ((structs, ts), None))"

text \<open>
  The first merge pass for the ranges of one client. \<open>deleteItem.clock + deleteItem.len - 1\<close>
  is \<open>-1\<close> for an empty range at clock 0, which \<open>findIndexSS\<close> does not find.
\<close>

fun mergeRanges ::
  "types \<Rightarrow> AbstractStruct list \<Rightarrow> DeleteItem list \<Rightarrow> (AbstractStruct list \<times> types) \<times> error option" where
  "mergeRanges ts structs [] = ((structs, ts), None)"
| "mergeRanges ts structs (deleteItem # others) =
     (if dclock deleteItem + len deleteItem = 0 then ((structs, ts), Some UnexpectedCase)
      else
        (case findIndexSS structs (dclock deleteItem + len deleteItem - 1) of
           Inl e \<Rightarrow> ((structs, ts), Some e)
         | Inr ix \<Rightarrow>
             (case mergeDownWhile ts structs (min (length structs - 1) (1 + ix))
                     (dclock deleteItem) of
                (r, Some e) \<Rightarrow> (r, Some e)
              | ((structs', ts'), None) \<Rightarrow> mergeRanges ts' structs' others)))"

text \<open>
  The loop \<open>for (let i = structs.length - 1; i >= firstChangePos; i--)\<close> of the second
  merge pass: \<open>mergeDownTo ts structs k firstChangePos\<close> runs \<open>i\<close> from \<open>k - 1\<close> down.
\<close>

fun mergeDownTo ::
  "types \<Rightarrow> AbstractStruct list \<Rightarrow> nat \<Rightarrow> nat \<Rightarrow> (AbstractStruct list \<times> types) \<times> error option" where
  "mergeDownTo ts structs 0 firstChangePos = ((structs, ts), None)"
| "mergeDownTo ts structs (Suc i) firstChangePos =
     (if firstChangePos \<le> i then
        (case tryToMergeWithLeft ts structs i of
           Inl e \<Rightarrow> ((structs, ts), Some e)
         | Inr (structs', ts') \<Rightarrow> mergeDownTo ts' structs' i firstChangePos)
      else ((structs, ts), None))"

text \<open>
  The passes over the whole store. Each \<open>for (const [client, deleteItems] of ds.clients)\<close>
  reads \<open>store.clients.get(client)\<close>; for an unknown client that is \<open>undefined\<close>, and
  the first \<open>findIndexSS\<close> on it raises. \<open>setStructs\<close> writes an array back.
\<close>

definition setStructs :: "StructStore \<Rightarrow> nat \<Rightarrow> AbstractStruct list \<Rightarrow> StructStore" where
  "setStructs st c structs = st\<lparr>clients := (clients st)(c \<mapsto> structs)\<rparr>"

fun gcPass :: "Env \<Rightarrow> StructStore \<Rightarrow> DeleteSet \<Rightarrow> StructStore \<times> error option" where
  "gcPass env st [] = (st, None)"
| "gcPass env st ((c, deleteItems) # ds) =
     (case clients st c of
        None \<Rightarrow> (if deleteItems = [] then gcPass env st ds else (st, Some TypeError))
      | Some structs \<Rightarrow>
          (case gcRanges env structs (rev deleteItems) of
             (structs', Some e) \<Rightarrow> (setStructs st c structs', Some e)
           | (structs', None) \<Rightarrow> gcPass env (setStructs st c structs') ds))"

fun mergePass1 :: "StructStore \<Rightarrow> types \<Rightarrow> DeleteSet \<Rightarrow> (StructStore \<times> types) \<times> error option" where
  "mergePass1 st ts [] = ((st, ts), None)"
| "mergePass1 st ts ((c, deleteItems) # ds) =
     (case clients st c of
        None \<Rightarrow> (if deleteItems = [] then mergePass1 st ts ds else ((st, ts), Some TypeError))
      | Some structs \<Rightarrow>
          (case mergeRanges ts structs (rev deleteItems) of
             ((structs', ts'), Some e) \<Rightarrow> ((setStructs st c structs', ts'), Some e)
           | ((structs', ts'), None) \<Rightarrow> mergePass1 (setStructs st c structs') ts' ds))"

text \<open>
  The second merge pass: for every client whose clock advanced,
  \<open>beforeClock = transaction.beforeState.get(client) || 0\<close>.
\<close>

fun mergePass2 ::
  "(nat \<times> nat) list \<Rightarrow> StructStore \<Rightarrow> types \<Rightarrow> (nat \<times> nat) list \<Rightarrow>
   (StructStore \<times> types) \<times> error option" where
  "mergePass2 bstate st ts [] = ((st, ts), None)"
| "mergePass2 bstate st ts ((c, clk) # astate) =
     (let beforeClock = (case map_of bstate c of Some b \<Rightarrow> b | None \<Rightarrow> 0) in
      if beforeClock \<noteq> clk then
        (case clients st c of
           None \<Rightarrow> ((st, ts), Some TypeError)
         | Some structs \<Rightarrow>
             (case findIndexSS structs beforeClock of
                Inl e \<Rightarrow> ((st, ts), Some e)
              | Inr ix \<Rightarrow>
                  (case mergeDownTo ts structs (length structs) (max ix 1) of
                     ((structs', ts'), Some e) \<Rightarrow> ((setStructs st c structs', ts'), Some e)
                   | ((structs', ts'), None) \<Rightarrow>
                       mergePass2 bstate (setStructs st c structs') ts' astate)))
      else mergePass2 bstate st ts astate)"

text \<open>The third merge pass, over \<open>transaction._mergeStructs\<close>.\<close>

fun mergePass3 :: "StructStore \<Rightarrow> types \<Rightarrow> ID list \<Rightarrow> (StructStore \<times> types) \<times> error option" where
  "mergePass3 st ts [] = ((st, ts), None)"
| "mergePass3 st ts (mid # mids) =
     (case clients st (client mid) of
        None \<Rightarrow> ((st, ts), Some TypeError)
      | Some structs \<Rightarrow>
          (case findIndexSS structs (clock mid) of
             Inl e \<Rightarrow> ((st, ts), Some e)
           | Inr replacedStructPos \<Rightarrow>
               (case (if replacedStructPos + 1 < length structs
                      then tryToMergeWithLeft ts structs (replacedStructPos + 1)
                      else Inr (structs, ts)) of
                  Inl e \<Rightarrow> ((st, ts), Some e)
                | Inr (structs1, ts1) \<Rightarrow>
                    (case (if 0 < replacedStructPos
                           then tryToMergeWithLeft ts1 structs1 replacedStructPos
                           else Inr (structs1, ts1)) of
                       Inl e \<Rightarrow> ((setStructs st (client mid) structs1, ts1), Some e)
                     | Inr (structs2, ts2) \<Rightarrow>
                         mergePass3 (setStructs st (client mid) structs2) ts2 mids))))"

text \<open>
  \<open>computeUpdateMessageFromTransaction\<close>: \<open>None\<close> for \<open>null\<close>, otherwise the transaction
  with its delete set sorted and merged once more, and the message.
\<close>

definition computeUpdateMessageFromTransaction ::
  "Env \<Rightarrow> StructStore \<Rightarrow> Transaction \<Rightarrow> (Transaction \<times> nat list) option" where
  "computeUpdateMessageFromTransaction env st tx =
     (if length (deleteSet tx) = 0 \<and>
         \<not> list_ex (\<lambda>(c, clk). map_of (beforeState tx) c \<noteq> Some clk) (afterState tx)
      then None
      else (let tx' = tx\<lparr>deleteSet := sortAndMergeInPlace (deleteSet tx)\<rparr>
            in Some (tx', writeStructsFromTransaction env tx' st @ writeDeleteSet (deleteSet tx'))))"

text \<open>Running a call after another unless the first one threw.\<close>

definition andThen :: "Doc \<times> exn option \<Rightarrow> callback \<Rightarrow> Doc \<times> exn option" where
  "andThen r k = (case r of (d, None) \<Rightarrow> k d | (d, Some x) \<Rightarrow> (d, Some x))"

definition internal :: "error option \<Rightarrow> exn option" where
  "internal e = map_option Internal e"

text \<open>
  The start of the cleanup of the transaction \<open>t\<close>: its delete set is sorted and merged,
  \<open>afterState\<close> is taken from the store, and \<open>doc._transaction\<close> is set to \<open>null\<close>.
\<close>

definition cleanupStart :: "nat \<Rightarrow> callback" where
  "cleanupStart t d =
     (let tx = d_heap d ! t;
          tx1 = tx\<lparr>deleteSet := sortAndMergeInPlace (deleteSet tx)\<rparr>;
          d1 = d\<lparr>d_heap := (d_heap d)[t := tx1]\<rparr>
      in case getStateVector (d_store d1) of
           Inl e \<Rightarrow> (d1, Some (Internal e))
         | Inr sv \<Rightarrow>
             (d1\<lparr>d_heap := (d_heap d1)[t := tx1\<lparr>afterState := sv\<rparr>], d_transaction := None\<rparr>,
              None))"

text \<open>
  The end of the cleanup of the transaction \<open>t\<close>, from the replacement of deleted items
  to the event \<open>update\<close>.
\<close>

definition cleanupStore :: "Env \<Rightarrow> nat \<Rightarrow> callback" where
  "cleanupStore env t d =
     (let tx = d_heap d ! t in
      case gcPass env (d_store d) (deleteSet tx) of
        (st1, Some e) \<Rightarrow> (d\<lparr>d_store := st1\<rparr>, Some (Internal e))
      | (st1, None) \<Rightarrow>
          (case mergePass1 st1 (d_share d) (deleteSet tx) of
             ((st2, ts2), Some e) \<Rightarrow> (d\<lparr>d_store := st2, d_share := ts2\<rparr>, Some (Internal e))
           | ((st2, ts2), None) \<Rightarrow>
               (case mergePass2 (beforeState tx) st2 ts2 (afterState tx) of
                  ((st3, ts3), Some e) \<Rightarrow> (d\<lparr>d_store := st3, d_share := ts3\<rparr>, Some (Internal e))
                | ((st3, ts3), None) \<Rightarrow>
                    (case mergePass3 st3 ts3 (mergeStructs tx) of
                       ((st4, ts4), e) \<Rightarrow> (d\<lparr>d_store := st4, d_share := ts4\<rparr>, internal e)))))"

definition emitUpdate :: "Env \<Rightarrow> nat \<Rightarrow> callback" where
  "emitUpdate env t d =
     (if ''update'' \<in> set (d_observers d) then
        (case computeUpdateMessageFromTransaction env (d_store d) (d_heap d ! t) of
           None \<Rightarrow> (d, None)
         | Some (tx', updateMessage) \<Rightarrow>
             emit env ''update'' t updateMessage (d\<lparr>d_heap := (d_heap d)[t := tx']\<rparr>))
      else (d, None))"

definition cleanupEnd :: "Env \<Rightarrow> nat \<Rightarrow> callback" where
  "cleanupEnd env t d =
     andThen (andThen (andThen (emit env ''afterTransaction'' t [] d)
                         (cleanupStore env t))
                (emit env ''afterTransactionCleanup'' t []))
       (emitUpdate env t)"

text \<open>
  The record of the observer calls, kept beside the document: which observers were
  called (the shallow observers of a type through \<open>_callObserver\<close>, or its deep
  observers) and what \<open>doc._transaction\<close> was at the moment of the call.
\<close>

datatype observerCall = Shallow nat | Deep nat

type_synonym trace = "(observerCall \<times> nat option) list"

text \<open>
  \<open>transaction.changed.forEach(...)\<close>. The iteration of a \<open>Map\<close> visits entries that
  are added while it runs, so the loop reads the map of the transaction anew at every
  step; \<open>j\<close> is the position in it. The loops that call user code may run forever; they
  take fuel and return \<open>None\<close> when it is used up.
\<close>

fun callShallowObservers ::
  "Env \<Rightarrow> nat \<Rightarrow> nat \<Rightarrow> nat \<Rightarrow> Doc \<Rightarrow> trace \<Rightarrow> (Doc \<times> exn option \<times> trace) option" where
  "callShallowObservers env 0 t j d tr = None"
| "callShallowObservers env (Suc fuel) t j d tr =
     (let ch = changed (d_heap d ! t) in
      if j < length ch then
        (case ch ! j of
           (itemtype, subs) \<Rightarrow>
             (case callObserver env itemtype t subs d of
                (d', None) \<Rightarrow>
                  callShallowObservers env fuel t (j + 1) d'
                    (tr @ [(Shallow itemtype, d_transaction d)])
              | (d', Some x) \<Rightarrow> Some (d', Some x, tr @ [(Shallow itemtype, d_transaction d)])))
      else Some (d, None, tr))"

text \<open>
  \<open>event.target._item === null || !event.target._item.deleted\<close>: the item that holds the
  target type is looked up in the store by its id.
\<close>

definition targetAlive :: "Doc \<Rightarrow> YEvent \<Rightarrow> bool" where
  "targetAlive d event =
     (case titem (d_share d (target event)) of
        None \<Rightarrow> True
      | Some i \<Rightarrow>
          (case clients (d_store d) (client i) of
             None \<Rightarrow> True
           | Some structs \<Rightarrow>
               (case findIndexSS structs (clock i) of
                  Inl e \<Rightarrow> True
                | Inr ix \<Rightarrow> \<not> struct_deleted (structs ! ix))))"

text \<open>
  \<open>transaction.changedParentTypes.forEach(...)\<close>: the events are filtered, their
  \<open>currentTarget\<close> is set, and the deep observers of the type are called with them.
\<close>

fun callDeepObservers ::
  "Env \<Rightarrow> nat \<Rightarrow> nat \<Rightarrow> nat \<Rightarrow> Doc \<Rightarrow> trace \<Rightarrow> (Doc \<times> exn option \<times> trace) option" where
  "callDeepObservers env 0 t j d tr = None"
| "callDeepObservers env (Suc fuel) t j d tr =
     (let tx = d_heap d ! t; cpt = changedParentTypes tx in
      if j < length cpt then
        (case cpt ! j of
           (type, events) \<Rightarrow>
             (let stored = map (\<lambda>ev. if targetAlive d ev then ev\<lparr>currentTarget := type\<rparr> else ev) events;
                  events' = filter (targetAlive d) stored;
                  d1 = d\<lparr>d_heap := (d_heap d)[t := tx\<lparr>changedParentTypes := cpt[j := (type, stored)]\<rparr>]\<rparr>
              in case callEventHandlerListeners env type events' t d1 of
                   (d', None) \<Rightarrow>
                     callDeepObservers env fuel t (j + 1) d' (tr @ [(Deep type, d_transaction d1)])
                 | (d', Some x) \<Rightarrow> Some (d', Some x, tr @ [(Deep type, d_transaction d1)])))
      else Some (d, None, tr))"

text \<open>The body of the cleanup loop for the transaction \<open>t = transactionCleanups[i]\<close>.\<close>

definition cleanupTransaction ::
  "Env \<Rightarrow> nat \<Rightarrow> nat \<Rightarrow> Doc \<Rightarrow> trace \<Rightarrow> (Doc \<times> exn option \<times> trace) option" where
  "cleanupTransaction env fuel t d tr =
     (case andThen (cleanupStart t d) (emit env ''beforeObserverCalls'' t []) of
        (d1, Some x) \<Rightarrow> Some (d1, Some x, tr)
      | (d1, None) \<Rightarrow>
          (case callShallowObservers env fuel t 0 d1 tr of
             None \<Rightarrow> None
           | Some (d2, Some x, tr2) \<Rightarrow> Some (d2, Some x, tr2)
           | Some (d2, None, tr2) \<Rightarrow>
               (case callDeepObservers env fuel t 0 d2 tr2 of
                  None \<Rightarrow> None
                | Some (d3, Some x, tr3) \<Rightarrow> Some (d3, Some x, tr3)
                | Some (d3, None, tr3) \<Rightarrow>
                    (case cleanupEnd env t d3 of (d4, x) \<Rightarrow> Some (d4, x, tr3)))))"

text \<open>
  \<open>for (let i = 0; i < transactionCleanups.length; i++)\<close>: observers may append
  transactions to the queue while it is processed.
\<close>

fun cleanupLoop ::
  "Env \<Rightarrow> nat \<Rightarrow> nat \<Rightarrow> Doc \<Rightarrow> trace \<Rightarrow> (Doc \<times> exn option \<times> trace) option" where
  "cleanupLoop env 0 i d tr = None"
| "cleanupLoop env (Suc fuel) i d tr =
     (if i < length (d_transactionCleanups d) then
        (case cleanupTransaction env (Suc fuel) (d_transactionCleanups d ! i) d tr of
           None \<Rightarrow> None
         | Some (d', Some x, tr') \<Rightarrow> Some (d', Some x, tr')
         | Some (d', None, tr') \<Rightarrow> cleanupLoop env fuel (i + 1) d' tr')
      else Some (d, None, tr))"

text \<open>
  \<open>transact(doc, f, origin)\<close>. \<open>f\<close> receives \<open>doc._transaction\<close>. The \<open>finally\<close> block
  runs whether \<open>f\<close> threw or not; an exception of the block replaces that of \<open>f\<close>.
  An exception of \<open>new Transaction\<close> or of the listeners of \<open>beforeTransaction\<close> is
  thrown before the \<open>try\<close>.
\<close>

definition transact ::
  "Env \<Rightarrow> nat \<Rightarrow> Doc \<Rightarrow> (nat option \<Rightarrow> callback) \<Rightarrow> nat option \<Rightarrow> trace \<Rightarrow>
   (Doc \<times> exn option \<times> trace) option" where
  "transact env fuel doc f orig tr =
     (let initialCall = (d_transaction doc = None);
          started =
            (if initialCall then
               (case getStateVector (d_store doc) of
                  Inl e \<Rightarrow> (doc, Some (Internal e))
                | Inr sv \<Rightarrow>
                    (let t = length (d_heap doc)
                     in emit env ''beforeTransaction'' t []
                          (doc\<lparr>d_heap := d_heap doc @ [newTransaction sv orig],
                               d_transaction := Some t,
                               d_transactionCleanups := d_transactionCleanups doc @ [t]\<rparr>)))
             else (doc, None))
      in case started of
           (d0, Some x) \<Rightarrow> Some (d0, Some x, tr)
         | (d0, None) \<Rightarrow>
             (case f (d_transaction d0) d0 of
                (d1, thrown) \<Rightarrow>
                  (if initialCall \<and>
                      (case d_transactionCleanups d1 of
                         [] \<Rightarrow> False
                       | t0 # others \<Rightarrow> d_transaction d1 = Some t0)
                   then
                     (case cleanupLoop env fuel 0 d1 tr of
                        None \<Rightarrow> None
                      | Some (d2, Some x, tr2) \<Rightarrow> Some (d2, Some x, tr2)
                      | Some (d2, None, tr2) \<Rightarrow>
                          Some (d2\<lparr>d_transactionCleanups := []\<rparr>, thrown, tr2))
                   else Some (d1, thrown, tr))))"

text \<open>
  A scenario with an observer that opens a transaction. \<open>quietEnv\<close> has no listeners
  and no observers. In \<open>reentrantEnv\<close> the shallow observer of type 0 calls
  \<open>transact\<close> with a body that does nothing (as an observer does that changes nothing
  but goes through \<open>transact\<close>); the other observers do nothing. \<open>emptyDoc\<close> is a
  fresh document of client 1, and \<open>insertTwo\<close> is a transaction body that inserts
  one string item into type 0 and one into type 1, marking both types as changed.
\<close>

definition quietEnv :: Env where
  "quietEnv = \<lparr>emit = (\<lambda>name t payload d. (d, None)),
            callObserver = (\<lambda>ty t subs d. (d, None)),
            callEventHandlerListeners = (\<lambda>ty events t d. (d, None)),
            gcReplace = (\<lambda>s. s),
            writeStructsFromTransaction = (\<lambda>tx st. [])\<rparr>"

definition reentrantEnv :: Env where
  "reentrantEnv = quietEnv\<lparr>callObserver := (\<lambda>ty t subs d.
      if ty = 0 then
        (case transact quietEnv 1 d (\<lambda>t d. (d, None)) None [] of
           Some (d', x, tr) \<Rightarrow> (d', x)
         | None \<Rightarrow> (d, None))
      else (d, None))\<rparr>"

definition emptyDoc :: Doc where
  "emptyDoc = \<lparr>d_clientID = 1,
           d_store = \<lparr>clients = Map.empty, clientKeys = [], pendingDeleteReaders = []\<rparr>,
           d_share = (\<lambda>t. \<lparr>tmap = Map.empty, titem = None, ancestors = []\<rparr>),
           d_transaction = None, d_transactionCleanups = [], d_heap = [], d_observers = []\<rparr>"

definition insertTwo :: "nat option \<Rightarrow> callback" where
  "insertTwo t d =
     (case t of
        None \<Rightarrow> (d, Some UserException)
      | Some r \<Rightarrow>
         (case addStruct (d_store d) (ItemString (createID 1 0)
             \<lparr>left = None, origin = None, right = None, rightOrigin = None, parent = 0,
              parentSub = None, deleted = False\<rparr> ''a'') of
            Inl e \<Rightarrow> (d, Some (Internal e))
          | Inr st1 \<Rightarrow>
             (case addStruct st1 (ItemString (createID 1 1)
                 \<lparr>left = None, origin = None, right = None, rightOrigin = None, parent = 1,
                  parentSub = None, deleted = False\<rparr> ''b'') of
                Inl e \<Rightarrow> (d, Some (Internal e))
              | Inr st2 \<Rightarrow>
                 (d\<lparr>d_store := st2,
                    d_heap := (d_heap d)[r := (d_heap d ! r)\<lparr>changed := [(0, [None]), (1, [None])]\<rparr>]\<rparr>,
                  None))))"


text \<open>
  For the second application of a delete set. \<open>settled structs clk e\<close>: every struct of
  the array that reaches into the range \<open>[clk, e)\<close>, or lies at \<open>clk\<close> before an empty
  range, is deleted, so that the range has nothing left to split or delete.
  \<open>refines structs' structs\<close>: every struct of \<open>structs'\<close> that is not deleted is a piece
  of a struct of \<open>structs\<close> that is not deleted. \<open>settledAll\<close>: every range of the delete
  set that begins below the state of its client is settled in the store.
\<close>

definition settled :: "AbstractStruct list \<Rightarrow> nat \<Rightarrow> nat \<Rightarrow> bool" where
  "settled structs clk e =
     list_all (\<lambda>s. clk < send s \<and> sclock s < e \<longrightarrow> struct_deleted s) structs"

definition refines :: "AbstractStruct list \<Rightarrow> AbstractStruct list \<Rightarrow> bool" where
  "refines structs' structs =
     list_all (\<lambda>x. struct_deleted x \<or>
        list_ex (\<lambda>s. \<not> struct_deleted s \<and> sclock s \<le> sclock x \<and> send x \<le> send s) structs)
       structs'"

definition settledAll :: "StructStore \<Rightarrow> DeleteSet \<Rightarrow> bool" where
  "settledAll store ds =
     list_all (\<lambda>(c, dsitems).
        list_all (\<lambda>d. dclock d < knownState store c \<longrightarrow>
                    settled (structsOf store c) (dclock d) (dclock d + len d)) dsitems) ds"

section \<open>Applying an update message: struct integration and the delete set\<close>

text \<open>
  \<open>class ItemStringRef\<close> of the source: the reference to a string item as it is read
  from the struct section of an update message, with the fields that its \<open>toStruct\<close>
  reads. Modelled from the spec: the base class \<open>AbstractItemRef\<close> is imported by the
  source and not part of it; by the spec a struct reference carries its id, an optional
  origin ID (\<open>ref_left\<close>) and rightOrigin ID (\<open>ref_right\<close>), a parent reference that is
  the ID of the item holding the parent type (\<open>ref_parent\<close>) or the key of a root type
  (\<open>ref_parentYKey\<close>, here the index of the type in the table of types), and an optional
  parentSub. \<open>get length ()\<close> is \<open>this.string.length\<close>.
\<close>

record ItemStringRef =
  ref_id :: ID
  ref_left :: "ID option"
  ref_right :: "ID option"
  ref_parent :: "ID option"
  ref_parentSub :: "string option"
  ref_parentYKey :: "nat option"
  ref_string :: string

definition ref_length :: "ItemStringRef \<Rightarrow> nat" where
  "ref_length r = length (ref_string r)"

text \<open>
  Modelled from the spec: \<open>changeItemRefOffset\<close> is imported by the source and not part
  of it. By the spec it trims the reference so that it starts at the current state:
  the id moves on by \<open>offset\<close> and, as for the right half of a split item, the origin
  becomes the unit before the new id.
\<close>

definition changeItemRefOffset :: "ItemStringRef \<Rightarrow> nat \<Rightarrow> ItemStringRef" where
  "changeItemRefOffset r offset =
     r\<lparr>ref_id := createID (client (ref_id r)) (clock (ref_id r) + offset),
       ref_left := Some (createID (client (ref_id r)) (clock (ref_id r) + offset - 1))\<rparr>"

text \<open>
  The code that locates the position of a new item, as parameters, since it is not part
  of the source and no statement below depends on the position it chooses:
  \<^item> \<open>computeItemParams\<close>, called by \<open>toStruct\<close>: from the origin, the right origin and the
    parent reference it gives the left and right neighbour, the parent (\<open>None\<close> for
    \<open>null\<close>: the parent is deleted or absent) and the parentSub;
  \<^item> \<open>conflictResolution\<close>: the walk over the concurrent items between the neighbours, by
    which integration decides the final left and right neighbour of the item.
\<close>

record Resolution =
  computeItemParams ::
    "types \<Rightarrow> Transaction \<Rightarrow> StructStore \<Rightarrow> ID option \<Rightarrow> ID option \<Rightarrow> ID option \<Rightarrow>
     string option \<Rightarrow> nat option \<Rightarrow> ID option \<times> ID option \<times> nat option \<times> string option"
  conflictResolution ::
    "types \<Rightarrow> StructStore \<Rightarrow> ID \<Rightarrow> AbstractItem \<Rightarrow> ID option \<times> ID option"

text \<open>
  \<open>ItemStringRef.toStruct(transaction, store, offset)\<close> of the source: for a positive
  offset the reference is trimmed and its string sliced; the struct is a \<open>GC\<close> of the
  length of the reference when the parent is \<open>null\<close>, and otherwise a new \<open>ItemString\<close>
  (not deleted) whose origin and right origin are those of the reference.
\<close>

definition toStruct ::
  "Resolution \<Rightarrow> types \<Rightarrow> Transaction \<Rightarrow> StructStore \<Rightarrow> ItemStringRef \<Rightarrow> nat \<Rightarrow> AbstractStruct" where
  "toStruct rs ts tx store r offset =
     (let r' = (if 0 < offset
                then (changeItemRefOffset r offset)\<lparr>ref_string := drop offset (ref_string r)\<rparr>
                else r)
      in case computeItemParams rs ts tx store (ref_left r') (ref_right r') (ref_parent r')
                (ref_parentSub r') (ref_parentYKey r') of
           (l, rt, p, sub) \<Rightarrow>
             (case p of
                None \<Rightarrow> GC (ref_id r') (ref_length r')
              | Some p' \<Rightarrow>
                  ItemString (ref_id r')
                    \<lparr>left = l, origin = ref_left r', right = rt, rightOrigin = ref_right r',
                     parent = p', parentSub = sub, deleted = False\<rparr>
                    (ref_string r')))"

text \<open>
  \<open>updateItem store j f\<close> changes the fields of the item that the reference \<open>j\<close> points
  to (the item whose id is \<open>j\<close>), as an assignment through an object reference does.
\<close>

definition updateItem :: "StructStore \<Rightarrow> ID option \<Rightarrow> (AbstractItem \<Rightarrow> AbstractItem) \<Rightarrow> StructStore" where
  "updateItem store j f =
     (case j of
        None \<Rightarrow> store
      | Some i \<Rightarrow>
          (case clients store (client i) of
             None \<Rightarrow> store
           | Some structs \<Rightarrow>
               store\<lparr>clients := (clients store)(client i \<mapsto>
                 map (\<lambda>x. case x of
                            ItemString xi xit xs \<Rightarrow> if xi = i then ItemString xi (f xit) xs else x
                          | GC xi n \<Rightarrow> x) structs)\<rparr>))"

text \<open>
  Modelled from the spec: \<open>integrate(transaction)\<close> of a struct is not part of the
  source. By the spec integration inserts the item into the sequence of its parent at
  the position that the conflict resolution chooses between its origin and its right
  origin, overwrites the parent's sub-map with the item when parentSub is set, and
  appends the struct to the array of its client (\<open>addStruct\<close>). The item is linked to
  its neighbours in both directions, and its parent is recorded in \<open>changed\<close> (the types
  that were directly modified, by the comment in \<open>Transaction\<close>). A \<open>GC\<close> has only an id
  and a length, and is only appended.
\<close>

fun integrate ::
  "Resolution \<Rightarrow> types \<Rightarrow> Transaction \<Rightarrow> StructStore \<Rightarrow> AbstractStruct \<Rightarrow>
   error + (types \<times> Transaction \<times> StructStore)" where
  "integrate rs ts tx store (GC i n) =
     (case addStruct store (GC i n) of Inl e \<Rightarrow> Inl e | Inr store' \<Rightarrow> Inr (ts, tx, store'))"
| "integrate rs ts tx store (ItemString i it s) =
     (case conflictResolution rs ts store i it of
        (l, r) \<Rightarrow>
          (let store1 = updateItem (updateItem store l (\<lambda>x. x\<lparr>right := Some i\<rparr>)) r
                          (\<lambda>x. x\<lparr>left := Some i\<rparr>);
               ts' = (case parentSub it of
                        Some sub \<Rightarrow>
                          ts(parent it := (ts (parent it))\<lparr>tmap := (tmap (ts (parent it)))(sub \<mapsto> i)\<rparr>)
                      | None \<Rightarrow> ts);
               tx' = tx\<lparr>changed := updateOrInsert (parent it) []
                                     (\<lambda>subs. List.insert (parentSub it) subs) (changed tx)\<rparr>
           in case addStruct store1 (ItemString i (it\<lparr>left := l, right := r\<rparr>) s) of
                Inl e \<Rightarrow> Inl e
              | Inr store2 \<Rightarrow> Inr (ts', tx', store2)))"

text \<open>
  The state that the application of an update passes along: the table of types, the
  transaction, the store, and the two fields of \<open>StructStore\<close> that hold the struct
  references not yet integrated. \<open>pendingClientsStructRefs\<close> maps a client to
  \<open>{i, refs}\<close>; the model keeps the references from \<open>refs[i]\<close> on, in the insertion
  order of the \<open>Map\<close>. \<open>pendingStack\<close> has its top first.
\<close>

record Replica =
  r_types :: types
  r_transaction :: Transaction
  r_store :: StructStore
  pendingClientsStructRefs :: "(nat \<times> ItemStringRef list) list"
  pendingStack :: "ItemStringRef list"

text \<open>
  The first dependency (origin, right origin, parent) that is not yet in the store: an
  id is in the store when its clock is below the state of its client.
\<close>

fun firstMissing :: "StructStore \<Rightarrow> ID option list \<Rightarrow> error + ID option" where
  "firstMissing store [] = Inr None"
| "firstMissing store (None # deps) = firstMissing store deps"
| "firstMissing store (Some d # deps) =
     (case getState store (client d) of
        Inl e \<Rightarrow> Inl e
      | Inr state \<Rightarrow> if state \<le> clock d then Inr (Some d) else firstMissing store deps)"

text \<open>
  The next pending reference of client \<open>c\<close>, and the pending references without it;
  \<open>None\<close> when the client has no pending references at all. An entry is discarded when
  its last reference is taken.
\<close>

fun takePending ::
  "nat \<Rightarrow> (nat \<times> ItemStringRef list) list \<Rightarrow>
   (ItemStringRef \<times> (nat \<times> ItemStringRef list) list) option" where
  "takePending c [] = None"
| "takePending c ((c', refs) # pend) =
     (if c' = c then
        (case refs of
           [] \<Rightarrow> None
         | r # refs' \<Rightarrow> Some (r, if refs' = [] then pend else (c', refs') # pend))
      else (case takePending c pend of
              None \<Rightarrow> None
            | Some (r, pend') \<Rightarrow> Some (r, (c', refs) # pend')))"

text \<open>
  Modelled from the spec: \<open>tryResumePendingStructRefs\<close> is not part of the source.
  One step of it, on the reference on top of the stack (taken from the first client
  with pending references when the stack is empty); the step returns whether the loop
  goes on.
  \<^item> The reference must begin at or below the state of its client
    (\<open>ref.id.clock \<le> getState(store, client)\<close>); otherwise structs of that client are
    missing and the references stay parked.
  \<^item> A reference that lies wholly below the state is skipped: the store knows its
    units already.
  \<^item> A dependency that is missing makes the loop switch to the client of the
    dependency, the current reference staying on the stack; when that client has no
    pending references at all the update is incomplete and the references stay parked.
  \<^item> Otherwise the reference is trimmed by \<open>offset = state - clock\<close>, converted by
    \<open>toStruct\<close> and integrated.
\<close>

definition resumeStep :: "Resolution \<Rightarrow> Replica \<Rightarrow> error + (bool \<times> Replica)" where
  "resumeStep rs st =
     (case pendingStack st of
        [] \<Rightarrow>
          (case pendingClientsStructRefs st of
             [] \<Rightarrow> Inr (False, st)
           | (c, refs) # pend \<Rightarrow>
               (case refs of
                  [] \<Rightarrow> Inr (True, st\<lparr>pendingClientsStructRefs := pend\<rparr>)
                | r # refs' \<Rightarrow>
                    Inr (True, st\<lparr>pendingClientsStructRefs :=
                                    (if refs' = [] then pend else (c, refs') # pend),
                                  pendingStack := [r]\<rparr>)))
      | r # stack \<Rightarrow>
          (case getState (r_store st) (client (ref_id r)) of
             Inl e \<Rightarrow> Inl e
           | Inr state \<Rightarrow>
               if state < clock (ref_id r) then Inr (False, st)
               else if ref_length r \<le> state - clock (ref_id r)
               then Inr (True, st\<lparr>pendingStack := stack\<rparr>)
               else
                 (case firstMissing (r_store st) [ref_left r, ref_right r, ref_parent r] of
                    Inl e \<Rightarrow> Inl e
                  | Inr (Some d) \<Rightarrow>
                      (case takePending (client d) (pendingClientsStructRefs st) of
                         None \<Rightarrow> Inr (False, st)
                       | Some (r', pend') \<Rightarrow>
                           Inr (True, st\<lparr>pendingClientsStructRefs := pend',
                                         pendingStack := r' # r # stack\<rparr>))
                  | Inr None \<Rightarrow>
                      (case integrate rs (r_types st) (r_transaction st) (r_store st)
                              (toStruct rs (r_types st) (r_transaction st) (r_store st) r
                                 (state - clock (ref_id r))) of
                         Inl e \<Rightarrow> Inl e
                       | Inr (ts', tx', store') \<Rightarrow>
                           Inr (True, st\<lparr>r_types := ts', r_transaction := tx', r_store := store',
                                         pendingStack := stack\<rparr>)))))"

text \<open>
  The loop ends: every step that goes on takes a reference from the pending ones,
  discards an empty entry, or takes a reference from the stack.
\<close>

definition pendingSize :: "Replica \<Rightarrow> nat" where
  "pendingSize st =
     2 * sum_list (map (\<lambda>(c, refs). length refs) (pendingClientsStructRefs st)) +
     length (pendingClientsStructRefs st) + length (pendingStack st)"

lemma takePending_size:
  "takePending c pend = Some (r, pend') \<Longrightarrow>
     sum_list (map (\<lambda>(c, refs). length refs) pend) =
       Suc (sum_list (map (\<lambda>(c, refs). length refs) pend')) \<and> length pend' \<le> length pend"
  by (induction c pend arbitrary: pend' rule: takePending.induct)
     (auto split: if_splits list.splits option.splits)

lemma resumeStep_size:
  "resumeStep rs st = Inr (True, st') \<Longrightarrow> pendingSize st' < pendingSize st"
  unfolding resumeStep_def pendingSize_def
  by (auto split: list.splits sum.splits if_splits option.splits prod.splits
           dest!: takePending_size)

function tryResumePendingStructRefs :: "Resolution \<Rightarrow> Replica \<Rightarrow> error + Replica" where
  "tryResumePendingStructRefs rs st =
     (case resumeStep rs st of
        Inl e \<Rightarrow> Inl e
      | Inr (continue, st') \<Rightarrow>
          if continue then tryResumePendingStructRefs rs st' else Inr st')"
  by pat_completeness auto
termination
  by (relation "measure (\<lambda>(rs, st). pendingSize st)") (auto dest: resumeStep_size)

declare tryResumePendingStructRefs.simps [simp del]

text \<open>
  Modelled from the spec: reading the struct section and applying an update are not
  part of the source. By the spec all struct references of the message are read into
  \<open>pendingClientsStructRefs\<close> (here the struct section is given as the references read
  from it, per client, and they are put behind the references already pending for that
  client), \<open>tryResumePendingStructRefs\<close> integrates them, and after struct integration
  the delete-set section is applied by \<open>readDeleteSet\<close>, which is in the source.
  \<open>applyUpdate\<close> returns the rest of the decoder and the new state.
\<close>

definition readStructs ::
  "(nat \<times> ItemStringRef list) list \<Rightarrow> (nat \<times> ItemStringRef list) list \<Rightarrow>
   (nat \<times> ItemStringRef list) list" where
  "readStructs structSection pend =
     fold (\<lambda>(c, refs) p. updateOrInsert c [] (\<lambda>old. old @ refs) p) structSection pend"

definition applyUpdate ::
  "Resolution \<Rightarrow> Replica \<Rightarrow> (nat \<times> ItemStringRef list) list \<Rightarrow> nat list \<Rightarrow>
   error + (nat list \<times> Replica)" where
  "applyUpdate rs st structSection decoder =
     (case tryResumePendingStructRefs rs
             (st\<lparr>pendingClientsStructRefs :=
                   readStructs structSection (pendingClientsStructRefs st)\<rparr>) of
        Inl e \<Rightarrow> Inl e
      | Inr st1 \<Rightarrow>
          (case readDeleteSet (r_types st1) decoder (r_transaction st1) (r_store st1) of
             Inl e \<Rightarrow> Inl e
           | Inr (rest, tx', store') \<Rightarrow>
               Inr (rest, st1\<lparr>r_transaction := tx', r_store := store'\<rparr>)))"

text \<open>
  For the statements about \<open>applyUpdate\<close>. \<open>known store r\<close>: the store knows every unit
  of the reference \<open>r\<close>. \<open>pendRefs\<close> and \<open>refsOf\<close>: the references that are pending.
  A scenario: \<open>rootResolution\<close> places every item in a root type without neighbours,
  \<open>emptyReplica\<close> is a fresh replica, and \<open>sevenUnits\<close> is a struct section with two
  references of client 1 that cover the clocks \<open>[0, 7)\<close>.
\<close>

definition known :: "StructStore \<Rightarrow> ItemStringRef \<Rightarrow> bool" where
  "known store r = (clock (ref_id r) + ref_length r \<le> knownState store (client (ref_id r)))"

definition pendRefs :: "(nat \<times> ItemStringRef list) list \<Rightarrow> ItemStringRef set" where
  "pendRefs pend = (\<Union>(c, refs) \<in> set pend. set refs)"

definition refsOf :: "Replica \<Rightarrow> ItemStringRef set" where
  "refsOf st = pendRefs (pendingClientsStructRefs st) \<union> set (pendingStack st)"




text \<open>
  For the passes of the cleanup of a transaction that change the store (the replacement
  of deleted items and the three merge passes), when they run between two applications
  of an update. \<open>keepsArray S S'\<close>: the array \<open>S'\<close> satisfies the invariant when
  \<open>S\<close> does, is not empty when \<open>S\<close> is not, has the same state, and every non-empty
  range that is settled in \<open>S\<close> is settled in \<open>S'\<close>. \<open>keepsStore\<close>: the same for the
  arrays of all clients, and the stores have the same clients. \<open>gcKeepsInterval\<close>: the
  struct that \<open>gc\<close> puts in the place of a deleted item has the same id and length and
  is deleted (by the spec a GC struct, or the item with its content demoted).
  \<open>nonEmptyRanges\<close>: every range of the delete set has a positive length.
\<close>

definition keepsArray :: "AbstractStruct list \<Rightarrow> AbstractStruct list \<Rightarrow> bool" where
  "keepsArray S S' =
     ((\<forall>c. arrayOK c S \<longrightarrow> arrayOK c S') \<and> (S \<noteq> [] \<longrightarrow> S' \<noteq> []) \<and>
      arrayState S' = arrayState S \<and>
      (\<forall>clk e. clk < e \<longrightarrow> settled S clk e \<longrightarrow> settled S' clk e))"

definition keepsStore :: "StructStore \<Rightarrow> StructStore \<Rightarrow> bool" where
  "keepsStore store store' =
     (\<forall>c. (clients store' c = None \<longleftrightarrow> clients store c = None) \<and>
          keepsArray (structsOf store c) (structsOf store' c))"

definition gcKeepsInterval :: "Env \<Rightarrow> bool" where
  "gcKeepsInterval env =
     (\<forall>s. struct_deleted s \<longrightarrow>
          struct_id (gcReplace env s) = struct_id s \<and>
          struct_length (gcReplace env s) = struct_length s \<and>
          struct_deleted (gcReplace env s))"

definition nonEmptyRanges :: "DeleteSet \<Rightarrow> bool" where
  "nonEmptyRanges ds = list_all (\<lambda>(c, dsitems). list_all (\<lambda>d. 0 < len d) dsitems) ds"

section \<open>Properties of the delete set\<close>

lemma separated_map_Some: "separated (map Some xs) = successively apart xs"
  by (induction xs rule: induct_list012) (auto simp: apart_def dend_def)

lemma insort_before:
  "sorted_wrt before ys \<Longrightarrow> sorted (map dclock ys) \<Longrightarrow> \<forall>y\<in>set ys. 0 < len y \<and> (before x y \<or> before y x)
   \<Longrightarrow> 0 < len x \<Longrightarrow> sorted_wrt before (insort_key dclock x ys)"
proof (induction ys)
  case Nil then show ?case by simp
next
  case (Cons y ys)
  show ?case
  proof (cases "dclock x \<le> dclock y")
    case True
    have "before x z" if "z \<in> set (y # ys)" for z
    proof -
      have "dclock y \<le> dclock z" using that Cons.prems(2) by auto
      moreover have "0 < len z" "before x z \<or> before z x" using that Cons.prems(3) by auto
      ultimately show ?thesis using True by (auto simp: before_def dend_def)
    qed
    then show ?thesis using True Cons.prems(1) by auto
  next
    case False
    have "before y x" using False Cons.prems(3,4) by (auto simp: before_def dend_def)
    moreover have "sorted_wrt before (insort_key dclock x ys)"
      using Cons by auto
    ultimately show ?thesis using False Cons.prems(1) by (auto simp: set_insort_key)
  qed
qed

lemma disjointRanges_pos: "disjointRanges xs \<Longrightarrow> \<forall>y\<in>set xs. 0 < len y"
  by (induction xs) auto

lemma sort_before: "disjointRanges xs \<Longrightarrow> sorted_wrt before (sort_key dclock xs)"
proof (induction xs)
  case Nil then show ?case by simp
next
  case (Cons x xs)
  have "\<forall>y\<in>set (sort_key dclock xs). 0 < len y \<and> (before x y \<or> before y x)"
    using Cons.prems disjointRanges_pos[of xs] by (auto simp: list_all_iff)
  then show ?case using Cons insort_before[of "sort_key dclock xs" x] by simp
qed

lemma mergeLoop_inv:
  "mergeLoop i j dels = (j', ds') \<Longrightarrow> 1 \<le> j \<Longrightarrow> j \<le> i \<Longrightarrow> i \<le> length dels \<Longrightarrow>
   successively apart (take j dels) \<Longrightarrow> successively before (drop i dels) \<Longrightarrow>
   (i < length dels \<longrightarrow> before (dels ! (j - 1)) (dels ! i)) \<Longrightarrow>
   1 \<le> j' \<and> j' \<le> length ds' \<and> successively apart (take j' ds')"
proof (induction i j dels arbitrary: j' ds' rule: mergeLoop.induct)
  case (1 i j dels)
  show ?case
  proof (cases "i < length dels")
    case False
    then show ?thesis using "1.prems" by (simp add: mergeLoop.simps)
  next
    case True
    let ?l = "dels ! (j - 1)" and ?r = "dels ! i"
    have dropi: "drop i dels = ?r # drop (Suc i) dels" using True by (simp add: Cons_nth_drop_Suc)
    have nxt: "Suc i < length dels \<longrightarrow> before ?r (dels ! Suc i)"
      using "1.prems"(6) dropi by (cases "drop (Suc i) dels") (auto simp: Cons_nth_drop_Suc[symmetric] dest: arg_cong[where f=hd] simp: hd_drop_conv_nth)
    have tl: "successively before (drop (Suc i) dels)"
      using "1.prems"(6) dropi by (metis successively_Cons successively.simps(1) list.exhaust)
    have j1: "j - 1 < length dels" "Suc (j - 1) = j" using "1.prems"(2,3) True by simp_all
    have takej: "take j dels = take (j - 1) dels @ [?l]"
      using take_Suc_conv_app_nth[OF j1(1)] j1(2) by simp
    show ?thesis
    proof (cases "dclock ?l + len ?l = dclock ?r")
      case merge: True
      let ?dels = "dels[j - 1 := ?l\<lparr>len := len ?l + len ?r\<rparr>]"
      have eq: "mergeLoop (i + 1) j ?dels = (j', ds')"
        using "1.prems"(1) True merge by (subst (asm) mergeLoop.simps) (simp add: Let_def)
      have a: "successively apart (take j ?dels)"
      proof -
        have "take j ?dels = (take j dels)[j - 1 := ?l\<lparr>len := len ?l + len ?r\<rparr>]"
          using j1 by (simp add: take_update_swap)
        also have "\<dots> = take (j - 1) dels @ [?l\<lparr>len := len ?l + len ?r\<rparr>]"
          using list_update_length[of "take (j - 1) dels" ?l "[]"] j1 takej by simp
        finally have "take j ?dels = take (j - 1) dels @ [?l\<lparr>len := len ?l + len ?r\<rparr>]" .
        then show ?thesis using "1.prems"(5) takej
          by (auto simp: successively_append_iff apart_def dend_def)
      qed
      have b: "successively before (drop (i + 1) ?dels)" using tl "1.prems"(2,3) by simp
      have c: "i + 1 < length ?dels \<longrightarrow> before (?dels ! (j - 1)) (?dels ! (i + 1))"
        using nxt "1.prems"(2,3) True merge by (auto simp: before_def dend_def)
      show ?thesis
        using "1.IH"(1)[OF True refl refl merge eq] "1.prems"(2,3) True a b c by simp
    next
      case keep: False
      let ?dels = "if j < i then dels[j := ?r] else dels"
      have eq: "mergeLoop (i + 1) (j + 1) ?dels = (j', ds')"
        using "1.prems"(1) True keep by (subst (asm) mergeLoop.simps) (simp add: Let_def)
      have jr: "?dels ! j = ?r" using "1.prems"(3) True by auto
      have "take (j + 1) ?dels = take j dels @ [?r]"
        using "1.prems"(3) True jr by (auto simp: take_Suc_conv_app_nth)
      moreover have "apart ?l ?r" using "1.prems"(7) True keep by (auto simp: before_def apart_def dend_def)
      ultimately have a: "successively apart (take (j + 1) ?dels)"
        using "1.prems"(5) takej by (auto simp: successively_append_iff)
      have b: "successively before (drop (i + 1) ?dels)" using tl "1.prems"(2,3) by simp
      have c: "i + 1 < length ?dels \<longrightarrow> before (?dels ! (j + 1 - 1)) (?dels ! (i + 1))"
        using nxt "1.prems"(2,3) True jr by (auto)
      show ?thesis
        using "1.IH"(2)[OF True refl refl keep eq] "1.prems"(2,3) True a b c by simp
    qed
  qed
qed


lemma sortAndMergeDels_separated:
  assumes "disjointRanges dels"
  shows "separated (sortAndMergeDels dels)"
proof (cases "dels = []")
  case True
  then show ?thesis by (simp add: sortAndMergeDels_def mergeLoop.simps setLength_def)
next
  case False
  let ?s = "sort_key dclock dels"
  obtain j ds where m: "mergeLoop 1 1 ?s = (j, ds)" by (cases "mergeLoop 1 1 ?s")
  have ne: "1 \<le> length ?s" using False by (cases dels) auto
  have sb: "successively before ?s"
    using sort_before[OF assms] by (rule successively_if_sorted_wrt)
  have d1: "successively before (drop 1 ?s)"
    using sb by (cases ?s) (auto simp: successively_Cons)
  have n1: "1 < length ?s \<longrightarrow> before (?s ! (1 - 1)) (?s ! 1)"
    using sb by (cases ?s; cases "tl ?s") auto
  have t1: "successively apart (take 1 ?s)" by (cases ?s) auto
  have "1 \<le> j \<and> j \<le> length ds \<and> successively apart (take j ds)"
    by (rule mergeLoop_inv[OF m _ _ ne t1 d1 n1]) simp_all
  then show ?thesis
    using m by (simp add: sortAndMergeDels_def setLength_def separated_map_Some)
qed

text \<open>
  Claim C1, as amended. For every delete set whose ranges, per client, have positive length
  and do not overlap one another, after \<open>sortAndMergeDeleteSet\<close> every client's array
  is strictly increasing by clock with neither overlap nor adjacency: consecutive ranges
  satisfy \<open>left.clock + left.len < right.clock\<close>.
\<close>

theorem sortAndMergeDeleteSet_separated:
  assumes "list_all (\<lambda>(c, dels). disjointRanges dels) ds"
  shows "list_all (\<lambda>(c, slots). separated slots) (sortAndMergeDeleteSet ds)"
  using assms
  by (auto simp: sortAndMergeDeleteSet_def list_all_iff intro: sortAndMergeDels_separated)

theorem sortAndMergeDeleteSet_separated_witness:
  "list_all (\<lambda>(c, dels). disjointRanges dels)
     [(7, [mkDeleteItem 5 2, mkDeleteItem 1 2, mkDeleteItem 3 2, mkDeleteItem 9 1])] \<and>
   sortAndMergeDeleteSet [(7, [mkDeleteItem 5 2, mkDeleteItem 1 2, mkDeleteItem 3 2, mkDeleteItem 9 1])]
     = [(7, [Some (mkDeleteItem 1 6), Some (mkDeleteItem 9 1)])] \<and>
   list_all (\<lambda>(c, slots). separated slots)
     (sortAndMergeDeleteSet [(7, [mkDeleteItem 5 2, mkDeleteItem 1 2, mkDeleteItem 3 2, mkDeleteItem 9 1])])"
proof -
  let ?ds = "[(7::nat, [mkDeleteItem 5 2, mkDeleteItem 1 2, mkDeleteItem 3 2, mkDeleteItem 9 1])]"
  have h: "list_all (\<lambda>(c, dels). disjointRanges dels) ?ds"
    by (simp add: mkDeleteItem_def before_def dend_def)
  have e: "sortAndMergeDeleteSet ?ds = [(7, [Some (mkDeleteItem 1 6), Some (mkDeleteItem 9 1)])]"
    by code_simp
  show ?thesis using h e sortAndMergeDeleteSet_separated[OF h] by simp
qed

text \<open>
  Claim C1 as stated fails: the loop coalesces exact adjacency only, so two overlapping
  ranges \<open>[0, 2)\<close> and \<open>[1, 3)\<close> of one client both survive, and \<open>0 + 2 < 1\<close> is false.
\<close>

theorem sortAndMergeDeleteSet_overlap_counterexample:
  "\<not> list_all (\<lambda>(c, slots). separated slots)
       (sortAndMergeDeleteSet [(7, [mkDeleteItem 0 2, mkDeleteItem 1 2])])"
  by code_simp

section \<open>Properties of the struct store\<close>

lemma integretyCheckFrom_succ:
  "(integretyCheckFrom l rest = Inr ()) = successively (\<lambda>a b. send a = sclock b) (l # rest)"
  by (induction rest arbitrary: l) (auto simp: send_def)

lemma contiguous_successively:
  "contiguous structs = successively (\<lambda>a b. send a = sclock b) structs"
  by (cases structs) (simp_all add: contiguous_def integretyCheck_def integretyCheckFrom_succ)

lemma contiguous_step:
  "contiguous structs \<Longrightarrow> Suc i < length structs \<Longrightarrow> send (structs ! i) = sclock (structs ! Suc i)"
  unfolding contiguous_successively by (rule successively_nth)

lemma contiguous_mono:
  "contiguous structs \<Longrightarrow> j < length structs \<Longrightarrow> i < j \<Longrightarrow> send (structs ! i) \<le> sclock (structs ! j)"
proof (induction j)
  case 0 then show ?case by simp
next
  case (Suc j)
  have st: "send (structs ! j) = sclock (structs ! Suc j)"
    using contiguous_step Suc.prems(1,2) by blast
  show ?case
  proof (cases "i = j")
    case True then show ?thesis using st by simp
  next
    case False
    then have "send (structs ! i) \<le> sclock (structs ! j)" using Suc by simp
    then show ?thesis using st by (simp add: send_def)
  qed
qed

lemma covers_unique:
  assumes "contiguous structs" "i < length structs" "j < length structs"
    "covers (structs ! i) k" "covers (structs ! j) k"
  shows "i = j"
proof (rule ccontr)
  assume "i \<noteq> j"
  then consider "i < j" | "j < i" by linarith
  then show False
  proof cases
    case 1
    then show ?thesis using contiguous_mono[OF assms(1,3) 1] assms(4,5) by (simp add: covers_def send_def)
  next
    case 2
    then show ?thesis using contiguous_mono[OF assms(1,2) 2] assms(4,5) by (simp add: covers_def send_def)
  qed
qed

lemma covers_exists:
  "contiguous structs \<Longrightarrow> structs \<noteq> [] \<Longrightarrow> sclock (hd structs) \<le> k \<Longrightarrow> k < send (last structs)
   \<Longrightarrow> \<exists>i < length structs. covers (structs ! i) k"
proof (induction structs rule: rev_induct)
  case Nil then show ?case by simp
next
  case (snoc x xs)
  show ?case
  proof (cases "sclock x \<le> k")
    case True
    then have "covers ((xs @ [x]) ! length xs) k" using snoc.prems by (simp add: covers_def send_def)
    then show ?thesis by (intro exI[of _ "length xs"]) simp
  next
    case False
    then have ne: "xs \<noteq> []" using snoc.prems by (cases xs) auto
    have c: "contiguous xs" using snoc.prems(1) by (simp add: contiguous_successively successively_append_iff)
    have "send (last xs) = sclock x"
      using snoc.prems(1) ne by (simp add: contiguous_successively successively_append_iff)
    then obtain i where "i < length xs" "covers (xs ! i) k"
      using snoc.IH[OF c ne] snoc.prems(3) False ne by auto
    then show ?thesis by (intro exI[of _ i]) (simp add: nth_append)
  qed
qed

lemma findIndexSS_loop_sound:
  "findIndexSS_loop structs k l r = Inr i \<Longrightarrow> i < length structs \<and> covers (structs ! i) k"
proof (induction structs k l r rule: findIndexSS_loop.induct)
  case (1 structs clk l r)
  note unf = findIndexSS_loop.simps[of structs clk l r]
  define m where "m = (l + r) div 2"
  have lr: "l \<le> r" using "1.prems" unf by (auto split: if_splits)
  have nb: "\<not> (m < 0 \<or> int (length structs) \<le> m)"
    using "1.prems" unf lr by (auto simp: Let_def m_def split: if_splits)
  let ?mid = "structs ! nat m"
  show ?case
  proof (cases "sclock ?mid \<le> clk")
    case le: True
    show ?thesis
    proof (cases "clk < sclock ?mid + struct_length ?mid")
      case True
      then have "i = nat m" using "1.prems" unf lr nb le by (simp add: Let_def m_def)
      then show ?thesis using True le nb by (auto simp: covers_def)
    next
      case False
      then have "findIndexSS_loop structs clk (m + 1) r = Inr i"
        using "1.prems" unf lr nb le by (simp add: Let_def m_def)
      then show ?thesis using "1.IH"(1)[OF lr _ nb refl refl le False] by (simp add: m_def)
    qed
  next
    case gt: False
    then have "findIndexSS_loop structs clk l (m - 1) = Inr i"
      using "1.prems" unf lr nb by (simp add: Let_def m_def)
    then show ?thesis using "1.IH"(2)[OF lr _ nb refl refl gt] by (simp add: m_def)
  qed
qed

lemma findIndexSS_loop_complete:
  "contiguous structs \<Longrightarrow> 0 \<le> l \<Longrightarrow> r < int (length structs) \<Longrightarrow>
   \<forall>j < length structs. covers (structs ! j) k \<longrightarrow> l \<le> int j \<and> int j \<le> r \<Longrightarrow>
   findIndexSS_loop structs k l r = Inl e \<Longrightarrow>
   e = UnexpectedCase \<and> (\<forall>j < length structs. \<not> covers (structs ! j) k)"
proof (induction structs k l r rule: findIndexSS_loop.induct)
  case (1 structs clk l r)
  show ?case
  proof (cases "l \<le> r")
    case False
    then show ?thesis using "1.prems"(4,5) findIndexSS_loop.simps[of structs clk l r] by force
  next
    case True
    define m where "m = (l + r) div 2"
    have mr: "l \<le> m" "m \<le> r" "0 \<le> m" "m < int (length structs)" "nat m < length structs"
      using True "1.prems"(2,3) by (auto simp: m_def)
    let ?mid = "structs ! nat m"
    have nb: "\<not> (m < 0 \<or> int (length structs) \<le> m)" using mr by simp
    show ?thesis
    proof (cases "sclock ?mid \<le> clk")
      case le: True
      then have nc: "\<not> clk < sclock ?mid + struct_length ?mid"
        using "1.prems"(5) True nb by (subst (asm) findIndexSS_loop.simps) (auto simp: Let_def m_def)
      then have eq: "findIndexSS_loop structs clk (m + 1) r = Inl e"
        using "1.prems"(5) True nb le by (subst (asm) findIndexSS_loop.simps) (auto simp: Let_def m_def)
      have inv: "\<forall>j < length structs. covers (structs ! j) clk \<longrightarrow> m + 1 \<le> int j \<and> int j \<le> r"
      proof (intro allI impI)
        fix j assume j: "j < length structs" "covers (structs ! j) clk"
        have "\<not> j \<le> nat m"
        proof
          assume a: "j \<le> nat m"
          show False
          proof (cases "j = nat m")
            case True then show ?thesis using j nc le by (simp add: covers_def)
          next
            case False
            then have "send (structs ! j) \<le> sclock ?mid"
              using contiguous_mono[OF "1.prems"(1) mr(5), of j] a by simp
            then show ?thesis using j le by (simp add: covers_def send_def)
          qed
        qed
        then show "m + 1 \<le> int j \<and> int j \<le> r" using "1.prems"(4) j by auto
      qed
      show ?thesis
        using "1.IH"(1)[OF True m_def nb refl refl le nc "1.prems"(1) _ "1.prems"(3) inv eq] mr
        by simp
    next
      case gt: False
      then have eq: "findIndexSS_loop structs clk l (m - 1) = Inl e"
        using "1.prems"(5) True nb by (subst (asm) findIndexSS_loop.simps) (auto simp: Let_def m_def)
      have inv: "\<forall>j < length structs. covers (structs ! j) clk \<longrightarrow> l \<le> int j \<and> int j \<le> m - 1"
      proof (intro allI impI)
        fix j assume j: "j < length structs" "covers (structs ! j) clk"
        have "\<not> nat m \<le> j"
        proof
          assume a: "nat m \<le> j"
          show False
          proof (cases "j = nat m")
            case True then show ?thesis using j gt by (simp add: covers_def)
          next
            case False
            then have "send (structs ! nat m) \<le> sclock (structs ! j)"
              using contiguous_mono[OF "1.prems"(1) j(1), of "nat m"] a by simp
            then show ?thesis using j gt by (simp add: covers_def send_def)
          qed
        qed
        then show "l \<le> int j \<and> int j \<le> m - 1" using "1.prems"(4) j by auto
      qed
      show ?thesis
        using "1.IH"(2)[OF True m_def nb refl refl gt "1.prems"(1,2) _ inv eq] mr
        by simp
    qed
  qed
qed


lemma findIndexSS_cases:
  assumes "contiguous structs"
  shows "(\<exists>i. findIndexSS structs c = Inr i \<and> i < length structs \<and> covers (structs ! i) c) \<or>
         (findIndexSS structs c = Inl UnexpectedCase \<and> (\<forall>j < length structs. \<not> covers (structs ! j) c))"
proof (cases "findIndexSS structs c")
  case (Inr i)
  then show ?thesis using findIndexSS_loop_sound[of structs c 0 "int (length structs) - 1" i]
    by (simp add: findIndexSS_def)
next
  case (Inl e)
  have "e = UnexpectedCase \<and> (\<forall>j < length structs. \<not> covers (structs ! j) c)"
    by (rule findIndexSS_loop_complete[OF assms, of 0 "int (length structs) - 1" c e])
      (use Inl in \<open>auto simp: findIndexSS_def\<close>)
  then show ?thesis using Inl by simp
qed

lemma covers_in_interval:
  assumes "contiguous structs" "j < length structs" "covers (structs ! j) c"
  shows "structs \<noteq> [] \<and> sclock (hd structs) \<le> c \<and> c < send (last structs)"
proof -
  have ne: "structs \<noteq> []" using assms(2) by auto
  have "sclock (hd structs) \<le> sclock (structs ! j)"
  proof (cases "j = 0")
    case True then show ?thesis using ne by (simp add: hd_conv_nth)
  next
    case False
    then have "send (structs ! 0) \<le> sclock (structs ! j)"
      using contiguous_mono[OF assms(1,2), of 0] by simp
    then show ?thesis using ne by (simp add: hd_conv_nth send_def)
  qed
  moreover have "send (structs ! j) \<le> send (last structs)"
  proof (cases "j = length structs - 1")
    case True then show ?thesis using ne by (simp add: last_conv_nth)
  next
    case False
    then have "send (structs ! j) \<le> sclock (structs ! (length structs - 1))"
      using contiguous_mono[OF assms(1), of "length structs - 1" j] assms(2) by simp
    then show ?thesis using ne by (simp add: last_conv_nth send_def)
  qed
  ultimately show ?thesis using ne assms(3) by (auto simp: covers_def send_def)
qed

lemma findIndexSS_inside:
  assumes "contiguous structs" "structs \<noteq> []" "sclock (hd structs) \<le> c"
    "c < send (last structs)"
  obtains i where "findIndexSS structs c = Inr i" "i < length structs" "covers (structs ! i) c"
proof -
  obtain j where "j < length structs" "covers (structs ! j) c"
    using covers_exists[OF assms] by blast
  then show ?thesis using findIndexSS_cases[OF assms(1), of c] that by auto
qed

text \<open>
  Claim C5. For every array satisfying the contiguity invariant and every clock \<open>c\<close> inside
  the known interval (first clock \<open>\<le> c <\<close> last clock + length), \<open>findIndexSS\<close> returns the
  unique index \<open>i\<close> with \<open>structs[i].id.clock \<le> c < structs[i].id.clock + structs[i].length\<close>;
  for any \<open>c\<close> outside that interval (and for the empty array) it throws.
\<close>

theorem findIndexSS_correct:
  assumes "contiguous structs"
  shows "(structs \<noteq> [] \<and> sclock (hd structs) \<le> c \<and> c < send (last structs) \<longrightarrow>
            (\<exists>i. findIndexSS structs c = Inr i \<and> i < length structs \<and> covers (structs ! i) c \<and>
                 (\<forall>j < length structs. covers (structs ! j) c \<longrightarrow> j = i))) \<and>
         (\<not> (structs \<noteq> [] \<and> sclock (hd structs) \<le> c \<and> c < send (last structs)) \<longrightarrow>
            findIndexSS structs c = Inl UnexpectedCase)"
proof (intro conjI impI)
  assume a: "structs \<noteq> [] \<and> sclock (hd structs) \<le> c \<and> c < send (last structs)"
  then obtain j where j: "j < length structs" "covers (structs ! j) c"
    using covers_exists[OF assms, of c] by auto
  then obtain i where i: "findIndexSS structs c = Inr i" "i < length structs" "covers (structs ! i) c"
    using findIndexSS_cases[OF assms, of c] by auto
  have "\<forall>j < length structs. covers (structs ! j) c \<longrightarrow> j = i"
    using covers_unique[OF assms _ i(2) _ i(3)] by blast
  then show "\<exists>i. findIndexSS structs c = Inr i \<and> i < length structs \<and> covers (structs ! i) c \<and>
                 (\<forall>j < length structs. covers (structs ! j) c \<longrightarrow> j = i)"
    using i by blast
next
  assume a: "\<not> (structs \<noteq> [] \<and> sclock (hd structs) \<le> c \<and> c < send (last structs))"
  then show "findIndexSS structs c = Inl UnexpectedCase"
    using findIndexSS_cases[OF assms, of c] covers_in_interval[OF assms] by blast
qed

theorem findIndexSS_correct_witness:
  "contiguous [GC (createID 1 0) 3, GC (createID 1 3) 2, GC (createID 1 5) 2] \<and>
   findIndexSS [GC (createID 1 0) 3, GC (createID 1 3) 2, GC (createID 1 5) 2] 4 = Inr 1 \<and>
   findIndexSS [GC (createID 1 0) 3, GC (createID 1 3) 2, GC (createID 1 5) 2] 7 = Inl UnexpectedCase"
proof -
  let ?A = "[GC (createID 1 0) 3, GC (createID 1 3) 2, GC (createID 1 5) 2]"
  have h: "contiguous ?A" by code_simp
  have inside: "?A \<noteq> [] \<and> sclock (hd ?A) \<le> 4 \<and> 4 < send (last ?A)" by code_simp
  have outside: "\<not> (?A \<noteq> [] \<and> sclock (hd ?A) \<le> 7 \<and> 7 < send (last ?A))" by code_simp
  obtain i where i: "findIndexSS ?A 4 = Inr i" "\<forall>j < length ?A. covers (?A ! j) 4 \<longrightarrow> j = i"
    using findIndexSS_correct[OF h, of 4] inside by blast
  have "covers (?A ! 1) 4" by code_simp
  then have "i = 1" using i(2) by force
  moreover have "findIndexSS ?A 7 = Inl UnexpectedCase"
    using findIndexSS_correct[OF h, of 7] outside by blast
  ultimately show ?thesis using h i(1) by simp
qed

text \<open>
  Claim C10. For every store and every client with no entry in it, \<open>getState\<close> returns 0
  instead of failing.
\<close>

theorem getState_unknown_client:
  "clients store c = None \<Longrightarrow> getState store c = Inr 0"
  by (simp add: getState_def)

theorem getState_unknown_client_witness:
  "clients \<lparr>clients = Map.empty, clientKeys = [], pendingDeleteReaders = []\<rparr> 3 = None \<and>
   getState \<lparr>clients = Map.empty, clientKeys = [], pendingDeleteReaders = []\<rparr> 3 = Inr 0"
  using getState_unknown_client[of "\<lparr>clients = Map.empty, clientKeys = [], pendingDeleteReaders = []\<rparr>" 3]
  by simp

text \<open>
  Claim C2, as amended. \<open>addStruct\<close> appends the struct to the array of its client. For a
  client that already has structs it fails exactly when the struct's clock differs from
  \<open>last.id.clock + last.length\<close>; for a client that has no entry in the store it never
  fails, whatever the clock of the struct is.
\<close>

theorem addStruct_spec:
  "(clients store (client (struct_id s)) = None \<longrightarrow>
      addStruct store s =
        Inr (store\<lparr>clients := (clients store)(client (struct_id s) \<mapsto> [s]),
                   clientKeys := clientKeys store @ [client (struct_id s)]\<rparr>)) \<and>
   (\<forall>structs. clients store (client (struct_id s)) = Some structs \<and> structs \<noteq> [] \<longrightarrow>
      (isl (addStruct store s) \<longleftrightarrow> sclock s \<noteq> send (last structs)) \<and>
      (sclock s \<noteq> send (last structs) \<longrightarrow> addStruct store s = Inl UnexpectedCase) \<and>
      (sclock s = send (last structs) \<longrightarrow>
         addStruct store s =
           Inr (store\<lparr>clients := (clients store)(client (struct_id s) \<mapsto> structs @ [s])\<rparr>)))"
  by (auto simp: addStruct_def send_def)

theorem addStruct_spec_witness:
  "addStruct \<lparr>clients = Map.empty, clientKeys = [], pendingDeleteReaders = []\<rparr> (GC (createID 1 5) 2) =
     Inr \<lparr>clients = [1 \<mapsto> [GC (createID 1 5) 2]], clientKeys = [1], pendingDeleteReaders = []\<rparr> \<and>
   addStruct \<lparr>clients = [1 \<mapsto> [GC (createID 1 0) 3]], clientKeys = [1], pendingDeleteReaders = []\<rparr> (GC (createID 1 3) 2) =
     Inr \<lparr>clients = [1 \<mapsto> [GC (createID 1 0) 3, GC (createID 1 3) 2]], clientKeys = [1], pendingDeleteReaders = []\<rparr> \<and>
   addStruct \<lparr>clients = [1 \<mapsto> [GC (createID 1 0) 3]], clientKeys = [1], pendingDeleteReaders = []\<rparr> (GC (createID 1 4) 2) =
     Inl UnexpectedCase"
  using addStruct_spec[of "\<lparr>clients = Map.empty, clientKeys = [], pendingDeleteReaders = []\<rparr>" "GC (createID 1 5) 2"]
    addStruct_spec[of "\<lparr>clients = [1 \<mapsto> [GC (createID 1 0) 3]], clientKeys = [1], pendingDeleteReaders = []\<rparr>" "GC (createID 1 3) 2"]
    addStruct_spec[of "\<lparr>clients = [1 \<mapsto> [GC (createID 1 0) 3]], clientKeys = [1], pendingDeleteReaders = []\<rparr>" "GC (createID 1 4) 2"]
  by (simp add: createID_def send_def sclock_def)

text \<open>
  Claim C2 as stated fails: for a client that has no structs yet the claim expects clock 0,
  but a struct at clock 5 is appended without a check.
\<close>

theorem addStruct_new_client_counterexample:
  "sclock (GC (createID 1 5) 2) \<noteq> 0 \<and>
   addStruct \<lparr>clients = Map.empty, clientKeys = [], pendingDeleteReaders = []\<rparr> (GC (createID 1 5) 2) =
     Inr \<lparr>clients = [1 \<mapsto> [GC (createID 1 5) 2]], clientKeys = [1], pendingDeleteReaders = []\<rparr>"
  by (simp add: addStruct_def createID_def sclock_def)

section \<open>Properties of clean starts and ends\<close>

lemma splitAt_props:
  assumes "splitAt s diff = (l, r)" "diff \<le> struct_length s"
  shows "struct_id l = struct_id s" "struct_length l = diff"
    "client (struct_id r) = client (struct_id s)" "sclock r = sclock s + diff"
    "struct_length r = struct_length s - diff"
    "isGC l = isGC s" "isGC r = isGC s"
    "struct_deleted l = struct_deleted s" "struct_deleted r = struct_deleted s"
  using assms by (cases s; auto simp: splitItem_def Let_def createID_def sclock_def)+

lemma splitAt_clocks:
  assumes "splitAt s diff = (l, r)" "diff \<le> struct_length s"
  shows "sclock l = sclock s" "send l = sclock r" "send r = send s"
  using splitAt_props[OF assms] assms(2) by (simp_all add: sclock_def send_def)

lemma splice_insert_update:
  "i < length xs \<Longrightarrow> splice_insert (Suc i) r (xs[i := l]) = take i xs @ l # r # drop (Suc i) xs"
  by (simp add: splice_insert_def take_Suc_conv_app_nth)

lemma contiguous_split:
  assumes "contiguous (A @ s # B)" "sclock l = sclock s" "send l = sclock r" "send r = send s"
  shows "contiguous (A @ l # r # B)"
proof -
  have "successively (\<lambda>a b. send a = sclock b) (l # r # B)"
    using assms by (cases B) (auto simp: contiguous_successively successively_append_iff)
  then show ?thesis
    using assms by (auto simp: contiguous_successively successively_append_iff)
qed

lemma inState_find:
  assumes "inState store i"
  obtains structs index where "clients store (client i) = Some structs" "contiguous structs"
    "findIndexSS structs (clock i) = Inr index" "index < length structs"
    "covers (structs ! index) (clock i)"
proof -
  obtain structs where s: "clients store (client i) = Some structs" "contiguous structs"
    "structs \<noteq> [] \<and> sclock (hd structs) \<le> clock i \<and> clock i < send (last structs)"
    using assms by (auto simp: inState_def split: option.splits)
  then obtain index where "findIndexSS structs (clock i) = Inr index" "index < length structs"
    "covers (structs ! index) (clock i)"
    using findIndexSS_inside[OF s(2), of "clock i"] by blast
  then show ?thesis using that s by blast
qed

text \<open>
  Claim C7, as amended. For every store containing \<open>id.clock\<close> within the known state of
  \<open>id.client\<close>, \<open>getItemCleanStart\<close> returns a struct of the client's array that contains
  \<open>id.clock\<close>. When the containing struct is not a GC, the returned struct begins exactly
  at \<open>id.clock\<close>: a containing struct whose clock is strictly smaller is split, the right
  half is inserted at the next array position and returned. A GC is never split: it is
  returned as it is and the store is unchanged, so it begins before \<open>id.clock\<close> when
  \<open>id.clock\<close> is not its first unit. The contiguity invariant is preserved.
\<close>

theorem getItemCleanStart_spec:
  assumes "inState store i"
  shows "\<exists>structs index store' s structs'.
     clients store (client i) = Some structs \<and> index < length structs \<and>
     covers (structs ! index) (clock i) \<and>
     getItemCleanStart store i = Inr (store', s) \<and>
     clients store' = (clients store)(client i \<mapsto> structs') \<and>
     contiguous structs' \<and> s \<in> set structs' \<and> covers s (clock i) \<and>
     (if sclock (structs ! index) < clock i \<and> \<not> isGC (structs ! index)
      then (\<exists>l. structs' = take index structs @ l # s # drop (Suc index) structs \<and>
                sclock l = sclock (structs ! index) \<and> send l = clock i \<and>
                sclock s = clock i \<and> send s = send (structs ! index))
      else store' = store \<and> s = structs ! index) \<and>
     (\<not> isGC (structs ! index) \<longrightarrow> sclock s = clock i)"
proof -
  obtain structs index where f: "clients store (client i) = Some structs" "contiguous structs"
    "findIndexSS structs (clock i) = Inr index" "index < length structs"
    "covers (structs ! index) (clock i)"
    using inState_find[OF assms] by blast
  let ?c = "structs ! index"
  show ?thesis
  proof (cases "sclock ?c < clock i \<and> \<not> isGC ?c")
    case False
    have "getItemCleanStart store i = Inr (store, ?c)"
      using f False by (auto simp: getItemCleanStart_def Let_def)
    moreover have "clients store = (clients store)(client i \<mapsto> structs)"
      using f(1) by (simp add: map_upd_triv)
    moreover have "\<not> isGC ?c \<longrightarrow> sclock ?c = clock i"
      using False f(5) by (auto simp: covers_def)
    ultimately show ?thesis using f False
      by (intro exI[of _ structs] exI[of _ index] exI[of _ store] exI[of _ ?c]) auto
  next
    case True
    define diff where "diff = clock i - sclock ?c"
    obtain l r where sp: "splitAt ?c diff = (l, r)" by (cases "splitAt ?c diff")
    have d: "diff \<le> struct_length ?c" "sclock ?c + diff = clock i"
      using True f(5) by (auto simp: diff_def covers_def)
    note cl = splitAt_clocks[OF sp d(1)] splitAt_props[OF sp d(1)]
    let ?structs' = "take index structs @ l # r # drop (Suc index) structs"
    let ?store' = "store\<lparr>clients := (clients store)(client i \<mapsto> ?structs')\<rparr>"
    have res: "getItemCleanStart store i = Inr (?store', r)"
      using f True sp by (simp add: getItemCleanStart_def Let_def diff_def splice_insert_update)
    have "structs = take index structs @ ?c # drop (Suc index) structs"
      using f(4) by (simp add: id_take_nth_drop[symmetric])
    then have "contiguous (take index structs @ ?c # drop (Suc index) structs)"
      using f(2) by simp
    then have cont: "contiguous ?structs'"
      using cl(1-3) by (rule contiguous_split)
    have cov: "covers r (clock i)" "sclock r = clock i" "send r = send ?c" "send l = clock i"
      using cl d f(5) by (auto simp: covers_def send_def)
    show ?thesis
      using f(1,4,5) res cont cov True cl(1)
      by (intro exI[of _ structs] exI[of _ index] exI[of _ ?store'] exI[of _ r] exI[of _ ?structs'])
        auto
  qed
qed


theorem getItemCleanStart_spec_witness:
  "inState \<lparr>clients = [1 \<mapsto> [ItemString (createID 1 0)
       \<lparr>left = None, origin = None, right = None, rightOrigin = None, parent = 0,
        parentSub = None, deleted = False\<rparr> ''abc'']], clientKeys = [1], pendingDeleteReaders = []\<rparr> (createID 1 1) \<and>
   (\<exists>store' s. getItemCleanStart \<lparr>clients = [1 \<mapsto> [ItemString (createID 1 0)
       \<lparr>left = None, origin = None, right = None, rightOrigin = None, parent = 0,
        parentSub = None, deleted = False\<rparr> ''abc'']], clientKeys = [1], pendingDeleteReaders = []\<rparr> (createID 1 1)
        = Inr (store', s) \<and> sclock s = 1 \<and> covers s 1)"
proof -
  let ?S = "\<lparr>clients = [1 \<mapsto> [ItemString (createID 1 0)
       \<lparr>left = None, origin = None, right = None, rightOrigin = None, parent = 0,
        parentSub = None, deleted = False\<rparr> ''abc'']], clientKeys = [1], pendingDeleteReaders = []\<rparr>"
  have h: "inState ?S (createID 1 1)"
    by (simp add: inState_def createID_def contiguous_def integretyCheck_def sclock_def send_def)
  show ?thesis
    using h getItemCleanStart_spec[OF h] by (auto simp: createID_def)
qed

text \<open>
  Claim C7 as stated fails on a GC: asked for clock 1 inside the GC \<open>[0, 3)\<close>, the function
  returns that GC, which begins at clock 0.
\<close>

theorem getItemCleanStart_GC_counterexample:
  "inState \<lparr>clients = [1 \<mapsto> [GC (createID 1 0) 3]], clientKeys = [1], pendingDeleteReaders = []\<rparr> (createID 1 1) \<and>
   getItemCleanStart \<lparr>clients = [1 \<mapsto> [GC (createID 1 0) 3]], clientKeys = [1], pendingDeleteReaders = []\<rparr> (createID 1 1)
     = Inr (\<lparr>clients = [1 \<mapsto> [GC (createID 1 0) 3]], clientKeys = [1], pendingDeleteReaders = []\<rparr>, GC (createID 1 0) 3) \<and>
   sclock (GC (createID 1 0) 3) \<noteq> clock (createID 1 1)"
  by (simp add: inState_def createID_def contiguous_def integretyCheck_def sclock_def send_def
      getItemCleanStart_def Let_def findIndexSS_def findIndexSS_loop.simps)

text \<open>
  Claim C6, as amended. For every store containing \<open>id.clock\<close> within the known state of
  \<open>id.client\<close>, \<open>getItemCleanEnd\<close> returns a struct of the client's array that contains
  \<open>id.clock\<close>. When the containing struct is not a GC, the returned struct ends exactly at
  \<open>id.clock + 1\<close>: if \<open>id.clock\<close> is not its last unit it is split and the right half is
  inserted at the next array position. A GC is never split: it is returned as it is and
  the store is unchanged. The contiguity invariant is preserved.
\<close>

theorem getItemCleanEnd_spec:
  assumes "inState store i"
  shows "\<exists>structs index store' s structs'.
     clients store (client i) = Some structs \<and> index < length structs \<and>
     covers (structs ! index) (clock i) \<and>
     getItemCleanEnd store i = Inr (store', s) \<and>
     clients store' = (clients store)(client i \<mapsto> structs') \<and>
     contiguous structs' \<and> s \<in> set structs' \<and> covers s (clock i) \<and>
     (if clock i + 1 \<noteq> send (structs ! index) \<and> \<not> isGC (structs ! index)
      then (\<exists>r. structs' = take index structs @ s # r # drop (Suc index) structs \<and>
                sclock s = sclock (structs ! index) \<and> send s = clock i + 1 \<and>
                sclock r = clock i + 1 \<and> send r = send (structs ! index))
      else store' = store \<and> s = structs ! index) \<and>
     (\<not> isGC (structs ! index) \<longrightarrow> send s = clock i + 1)"
proof -
  obtain structs index where f: "clients store (client i) = Some structs" "contiguous structs"
    "findIndexSS structs (clock i) = Inr index" "index < length structs"
    "covers (structs ! index) (clock i)"
    using inState_find[OF assms] by blast
  let ?c = "structs ! index"
  have cond: "(int (clock i) \<noteq> int (sclock ?c) + int (struct_length ?c) - 1) = (clock i + 1 \<noteq> send ?c)"
    by (auto simp: send_def)
  show ?thesis
  proof (cases "clock i + 1 \<noteq> send ?c \<and> \<not> isGC ?c")
    case False
    have "getItemCleanEnd store i = Inr (store, ?c)"
      using f False cond by (auto simp: getItemCleanEnd_def Let_def)
    moreover have "clients store = (clients store)(client i \<mapsto> structs)"
      using f(1) by (simp add: map_upd_triv)
    ultimately show ?thesis using f False
      by (intro exI[of _ structs] exI[of _ index] exI[of _ store] exI[of _ ?c]) auto
  next
    case True
    define diff where "diff = clock i - sclock ?c + 1"
    obtain l r where sp: "splitAt ?c diff = (l, r)" by (cases "splitAt ?c diff")
    have d: "diff \<le> struct_length ?c" "sclock ?c + diff = clock i + 1"
      using True f(5) by (auto simp: diff_def covers_def send_def)
    note cl = splitAt_clocks[OF sp d(1)] splitAt_props[OF sp d(1)]
    let ?structs' = "take index structs @ l # r # drop (Suc index) structs"
    let ?store' = "store\<lparr>clients := (clients store)(client i \<mapsto> ?structs')\<rparr>"
    have res: "getItemCleanEnd store i = Inr (?store', l)"
      using f True sp cond by (simp add: getItemCleanEnd_def Let_def diff_def splice_insert_update)
    have "structs = take index structs @ ?c # drop (Suc index) structs"
      using f(4) by (simp add: id_take_nth_drop[symmetric])
    then have "contiguous (take index structs @ ?c # drop (Suc index) structs)"
      using f(2) by simp
    then have cont: "contiguous ?structs'"
      using cl(1-3) by (rule contiguous_split)
    have cov: "covers l (clock i)" "sclock l = sclock ?c" "send l = clock i + 1"
      "sclock r = clock i + 1" "send r = send ?c"
      using cl d f(5) by (auto simp: covers_def send_def)
    show ?thesis
      using f(1,4,5) res cont cov True
      by (intro exI[of _ structs] exI[of _ index] exI[of _ ?store'] exI[of _ l] exI[of _ ?structs'])
        auto
  qed
qed

theorem getItemCleanEnd_spec_witness:
  "inState \<lparr>clients = [1 \<mapsto> [ItemString (createID 1 0)
       \<lparr>left = None, origin = None, right = None, rightOrigin = None, parent = 0,
        parentSub = None, deleted = False\<rparr> ''abc'']], clientKeys = [1], pendingDeleteReaders = []\<rparr> (createID 1 1) \<and>
   (\<exists>store' s. getItemCleanEnd \<lparr>clients = [1 \<mapsto> [ItemString (createID 1 0)
       \<lparr>left = None, origin = None, right = None, rightOrigin = None, parent = 0,
        parentSub = None, deleted = False\<rparr> ''abc'']], clientKeys = [1], pendingDeleteReaders = []\<rparr> (createID 1 1)
        = Inr (store', s) \<and> send s = 2 \<and> covers s 1)"
proof -
  let ?S = "\<lparr>clients = [1 \<mapsto> [ItemString (createID 1 0)
       \<lparr>left = None, origin = None, right = None, rightOrigin = None, parent = 0,
        parentSub = None, deleted = False\<rparr> ''abc'']], clientKeys = [1], pendingDeleteReaders = []\<rparr>"
  have h: "inState ?S (createID 1 1)"
    by (simp add: inState_def createID_def contiguous_def integretyCheck_def sclock_def send_def)
  show ?thesis
    using h getItemCleanEnd_spec[OF h] by (auto simp: createID_def)
qed

text \<open>
  Claim C6 as stated fails on a GC: asked for clock 0 inside the GC \<open>[0, 3)\<close>, the function
  returns that GC, which ends at clock 3, not 1.
\<close>

theorem getItemCleanEnd_GC_counterexample:
  "inState \<lparr>clients = [1 \<mapsto> [GC (createID 1 0) 3]], clientKeys = [1], pendingDeleteReaders = []\<rparr> (createID 1 0) \<and>
   getItemCleanEnd \<lparr>clients = [1 \<mapsto> [GC (createID 1 0) 3]], clientKeys = [1], pendingDeleteReaders = []\<rparr> (createID 1 0)
     = Inr (\<lparr>clients = [1 \<mapsto> [GC (createID 1 0) 3]], clientKeys = [1], pendingDeleteReaders = []\<rparr>, GC (createID 1 0) 3) \<and>
   send (GC (createID 1 0) 3) \<noteq> clock (createID 1 0) + 1"
  by (simp add: inState_def createID_def contiguous_def integretyCheck_def sclock_def send_def
      getItemCleanEnd_def Let_def findIndexSS_def findIndexSS_loop.simps)


section \<open>Properties of merging\<close>

lemma mergeWith_props:
  assumes "mergeWith l r = Some m"
  shows "struct_id m = struct_id l" "struct_length m = struct_length l + struct_length r"
    "send l = sclock r" "isGC m = isGC l" "struct_deleted m = struct_deleted l"
    "client (struct_id l) = client (struct_id r)"
  using assms
  by (cases l; cases r;
      auto simp: mergeItemWith_def send_def sclock_def split: option.splits if_splits)+

lemma mergeWith_clocks:
  assumes "mergeWith l r = Some m"
  shows "sclock m = sclock l" "send m = send r"
  using mergeWith_props[OF assms] by (simp_all add: sclock_def send_def)

lemma contiguous_merge:
  assumes "contiguous (A @ l # r # B)" "sclock m = sclock l" "send m = send r"
  shows "contiguous (A @ m # B)"
proof -
  have "successively (\<lambda>a b. send a = sclock b) (m # B)"
    using assms by (cases B) (auto simp: contiguous_successively successively_append_iff)
  then show ?thesis
    using assms by (auto simp: contiguous_successively successively_append_iff)
qed

lemma splice_remove:
  assumes "0 < i" "i < length xs"
  shows "take i (xs[i - 1 := m]) @ drop (i + 1) xs = take (i - 1) xs @ m # drop (Suc i) xs"
    "xs = take (i - 1) xs @ xs ! (i - 1) # xs ! i # drop (Suc i) xs"
proof -
  obtain k where k: "i = Suc k" using assms(1) by (cases i) auto
  show "take i (xs[i - 1 := m]) @ drop (i + 1) xs = take (i - 1) xs @ m # drop (Suc i) xs"
    using assms(2) k by (simp add: take_Suc_conv_app_nth)
  have "xs = take k xs @ xs ! k # drop (Suc k) xs"
    using assms(2) k by (simp add: id_take_nth_drop[symmetric])
  also have "drop (Suc k) xs = xs ! Suc k # drop (Suc (Suc k)) xs"
    using assms(2) k by (simp add: Cons_nth_drop_Suc)
  finally show "xs = take (i - 1) xs @ xs ! (i - 1) # xs ! i # drop (Suc i) xs"
    using k by simp
qed

text \<open>
  Claim C9. For every array and position \<open>i\<close> with \<open>0 < i < length\<close>,
  \<open>tryToMergeWithLeft\<close> merges \<open>structs[i]\<close> into \<open>structs[i - 1]\<close> only when both have
  equal deleted flags and the same concrete variant and \<open>mergeWith\<close> succeeds. On success
  \<open>structs[i]\<close> is spliced out and the merged struct stands at \<open>i - 1\<close> (same id, the sum
  of the lengths), and if the merged-away right struct was its parent map's current entry
  for its parentSub key, that entry now points to the surviving left struct; every other
  map entry is unchanged. On failure the array and the maps are unchanged. Contiguity is
  preserved.
\<close>

theorem tryToMergeWithLeft_spec:
  assumes "0 < i" "i < length structs"
  shows "\<exists>structs' ts'. tryToMergeWithLeft ts structs i = Inr (structs', ts') \<and>
     (contiguous structs \<longrightarrow> contiguous structs') \<and>
     (if struct_deleted (structs ! (i - 1)) = struct_deleted (structs ! i) \<and>
         isGC (structs ! (i - 1)) = isGC (structs ! i) \<and>
         mergeWith (structs ! (i - 1)) (structs ! i) \<noteq> None
      then (\<exists>m. mergeWith (structs ! (i - 1)) (structs ! i) = Some m \<and>
              structs' = take (i - 1) structs @ m # drop (Suc i) structs \<and>
              struct_id m = struct_id (structs ! (i - 1)) \<and>
              struct_length m = struct_length (structs ! (i - 1)) + struct_length (structs ! i) \<and>
              (\<forall>t sub. tmap (ts' t) sub =
                 (if isMapEntry ts (structs ! i) t sub then Some (struct_id (structs ! (i - 1)))
                  else tmap (ts t) sub)))
      else structs' = structs \<and> ts' = ts)"
proof (cases "struct_deleted (structs ! (i - 1)) = struct_deleted (structs ! i) \<and>
         isGC (structs ! (i - 1)) = isGC (structs ! i) \<and>
         mergeWith (structs ! (i - 1)) (structs ! i) \<noteq> None")
  case False
  then have "tryToMergeWithLeft ts structs i = Inr (structs, ts)"
    using assms by (auto simp: tryToMergeWithLeft_def Let_def split: option.splits)
  then show ?thesis using False by auto
next
  case True
  let ?l = "structs ! (i - 1)" and ?r = "structs ! i"
  obtain m where m: "mergeWith ?l ?r = Some m" using True by auto
  let ?structs' = "take (i - 1) structs @ m # drop (Suc i) structs"
  define ts' where "ts' = (case ?r of
                        ItemString ri rit rs \<Rightarrow>
                          (case parentSub rit of
                             Some sub \<Rightarrow>
                               (if tmap (ts (parent rit)) sub = Some ri
                                then ts(parent rit := (ts (parent rit))
                                       \<lparr>tmap := (tmap (ts (parent rit)))(sub \<mapsto> struct_id m)\<rparr>)
                                else ts)
                           | None \<Rightarrow> ts)
                      | GC ri rn \<Rightarrow> ts)"
  have res: "tryToMergeWithLeft ts structs i = Inr (?structs', ts')"
    using assms True m splice_remove(1)[OF assms, of m]
    by (simp add: tryToMergeWithLeft_def Let_def ts'_def)
  have cont: "contiguous structs \<longrightarrow> contiguous ?structs'"
  proof
    assume "contiguous structs"
    then have "contiguous (take (i - 1) structs @ ?l # ?r # drop (Suc i) structs)"
      using splice_remove(2)[OF assms] by simp
    then show "contiguous ?structs'"
      using mergeWith_clocks[OF m] by (rule contiguous_merge)
  qed
  have tm: "tmap (ts' t) sub =
        (if isMapEntry ts ?r t sub then Some (struct_id ?l) else tmap (ts t) sub)" for t sub
    unfolding ts'_def using mergeWith_props(1)[OF m]
    by (cases ?r) (auto split: option.splits)
  show ?thesis
    using res cont True m mergeWith_props(1,2)[OF m] tm
    by (intro exI[of _ ?structs'] exI[of _ ts']) simp
qed


theorem tryToMergeWithLeft_spec_witness:
  "(0::nat) < 1 \<and>
   1 < length [ItemString (createID 1 0) \<lparr>left = None, origin = None, right = Some (createID 1 1),
                 rightOrigin = None, parent = 0, parentSub = Some ''k'', deleted = False\<rparr> ''a'',
               ItemString (createID 1 1) \<lparr>left = Some (createID 1 0), origin = Some (createID 1 0),
                 right = None, rightOrigin = None, parent = 0, parentSub = Some ''k'',
                 deleted = False\<rparr> ''bc''] \<and>
   (\<exists>ts'. tryToMergeWithLeft
        (\<lambda>t. \<lparr>tmap = [''k'' \<mapsto> createID 1 1], titem = None, ancestors = []\<rparr>)
        [ItemString (createID 1 0) \<lparr>left = None, origin = None, right = Some (createID 1 1),
           rightOrigin = None, parent = 0, parentSub = Some ''k'', deleted = False\<rparr> ''a'',
         ItemString (createID 1 1) \<lparr>left = Some (createID 1 0), origin = Some (createID 1 0),
           right = None, rightOrigin = None, parent = 0, parentSub = Some ''k'',
           deleted = False\<rparr> ''bc''] 1
      = Inr ([ItemString (createID 1 0) \<lparr>left = None, origin = None, right = None,
                rightOrigin = None, parent = 0, parentSub = Some ''k'', deleted = False\<rparr> ''abc''], ts') \<and>
      tmap (ts' 0) ''k'' = Some (createID 1 0))"
proof -
  let ?l = "ItemString (createID 1 0) \<lparr>left = None, origin = None, right = Some (createID 1 1),
                 rightOrigin = None, parent = 0, parentSub = Some ''k'', deleted = False\<rparr> ''a''"
  let ?r = "ItemString (createID 1 1) \<lparr>left = Some (createID 1 0), origin = Some (createID 1 0),
                 right = None, rightOrigin = None, parent = 0, parentSub = Some ''k'',
                 deleted = False\<rparr> ''bc''"
  let ?ts = "\<lambda>t::nat. \<lparr>tmap = [''k'' \<mapsto> createID 1 1], titem = None, ancestors = []\<rparr>"
  have h: "(0::nat) < 1" "1 < length [?l, ?r]" by simp_all
  have m: "mergeWith ?l ?r = Some (ItemString (createID 1 0) \<lparr>left = None, origin = None, right = None,
                rightOrigin = None, parent = 0, parentSub = Some ''k'', deleted = False\<rparr> ''abc'')"
    by (simp add: mergeItemWith_def createID_def)
  have e: "isMapEntry ?ts ?r 0 ''k''" by simp
  show ?thesis
    using tryToMergeWithLeft_spec[OF h, of ?ts] m e by (auto simp: createID_def)
qed

section \<open>Properties of reading a delete set\<close>

lemma deleteLoop_stop:
  "index < length structs \<Longrightarrow> clk + n \<le> sclock (structs ! index) \<Longrightarrow>
   deleteLoop ts tx structs index clk n = (tx, structs)"
  by (subst deleteLoop.simps) (simp add: Let_def)

lemma deleteLoop_end:
  "length structs \<le> index \<Longrightarrow> deleteLoop ts tx structs index clk n = (tx, structs)"
  by (subst deleteLoop.simps) simp

lemma deleteLoop_delSuffix:
  "index \<le> length structs \<Longrightarrow>
   deleteLoop ts tx structs index clk n =
     (case delSuffix ts tx (drop index structs) (clk + n) of
        (tx', suf) \<Rightarrow> (tx', take index structs @ suf))"
proof (induction ts tx structs index clk n rule: deleteLoop.induct)
  case (1 ts tx structs index clk n)
  show ?case
  proof (cases "index < length structs")
    case False
    then show ?thesis using "1.prems" by (simp add: deleteLoop_end)
  next
    case True
    let ?s = "structs ! index"
    have dr: "drop index structs = ?s # drop (Suc index) structs"
      using True by (simp add: Cons_nth_drop_Suc)
    show ?thesis
    proof (cases "sclock ?s < clk + n")
      case False
      then show ?thesis using True dr id_take_nth_drop[OF True, symmetric]
        by (simp add: deleteLoop_stop)
    next
      case lt: True
      show ?thesis
      proof (cases "struct_deleted ?s")
        case del: True
        have "deleteLoop ts tx structs index clk n = deleteLoop ts tx structs (index + 1) clk n"
          using True lt del by (subst deleteLoop.simps) (simp add: Let_def)
        also have "\<dots> = (case delSuffix ts tx (drop (index + 1) structs) (clk + n) of
                      (tx', suf) \<Rightarrow> (tx', take (index + 1) structs @ suf))"
          using "1.IH"(2)[OF True refl lt] del True by simp
        finally show ?thesis
          using dr lt del True by (simp add: take_Suc_conv_app_nth split: prod.splits)
      next
        case nd: False
        show ?thesis
        proof (cases "clk + n < sclock ?s + struct_length ?s")
          case sp: True
          obtain l r where lr: "splitAt ?s (clk + n - sclock ?s) = (l, r)"
            by (cases "splitAt ?s (clk + n - sclock ?s)")
          obtain tx' l' where d: "deleteStruct ts tx l = (tx', l')"
            by (cases "deleteStruct ts tx l")
          let ?structs1 = "splice_insert (index + 1) r (structs[index := l])"
          have s1: "?structs1 = take index structs @ l # r # drop (Suc index) structs"
            using True splice_insert_update[of index structs r l] by simp
          have s2: "?structs1[index := l'] = take index structs @ l' # r # drop (Suc index) structs"
            using True s1 by (simp add: list_update_append)
          have rc: "sclock r = clk + n" using splitAt_right_clock[OF lr] lt by simp
          have "deleteLoop ts tx structs index clk n =
                  deleteLoop ts tx' (?structs1[index := l']) (index + 1) clk n"
            using True lt nd sp lr d by (subst deleteLoop.simps) (simp add: Let_def)
          also have "\<dots> = (tx', ?structs1[index := l'])"
            using True s2 rc by (intro deleteLoop_stop) (simp_all add: nth_append)
          finally show ?thesis using dr lt nd sp lr d s2 by simp
        next
          case ns: False
          obtain tx' s' where d: "deleteStruct ts tx ?s = (tx', s')"
            by (cases "deleteStruct ts tx ?s")
          have xa: "(?s, structs) =
              (if clk + n < sclock ?s + struct_length ?s
               then case splitAt ?s (clk + n - sclock ?s) of
                      (l, r) \<Rightarrow> (l, splice_insert (index + 1) r (structs[index := l]))
               else (?s, structs))"
            using ns by simp
          have "deleteLoop ts tx structs index clk n =
                  deleteLoop ts tx' (structs[index := s']) (index + 1) clk n"
            using True lt nd ns d by (subst deleteLoop.simps) (simp add: Let_def)
          also have "\<dots> = (case delSuffix ts tx' (drop (index + 1) (structs[index := s'])) (clk + n) of
                      (tx'', suf) \<Rightarrow> (tx'', take (index + 1) (structs[index := s']) @ suf))"
            using "1.IH"(1)[OF True refl lt nd refl xa refl d[symmetric]] True by simp
          finally show ?thesis
            using dr lt nd ns d True
            by (simp add: take_Suc_conv_app_nth split: prod.splits)
        qed
      qed
    qed
  qed
qed

lemma dsCovers_updateOrInsert:
  "dsCovers (updateOrInsert c [] (\<lambda>dels. dels @ [d]) ds) c' k \<longleftrightarrow>
   dsCovers ds c' k \<or> (c' = c \<and> dclock d \<le> k \<and> k < dclock d + len d)"
  by (induction ds) (auto simp: dsCovers_def split: if_splits)

lemma dsCovers_addToDeleteSet:
  "dsCovers (addToDeleteSet ds i n) c' k \<longleftrightarrow>
   dsCovers ds c' k \<or> (c' = client i \<and> clock i \<le> k \<and> k < clock i + n)"
  by (simp add: addToDeleteSet_def dsCovers_updateOrInsert mkDeleteItem_def)

lemma deleteStruct_props:
  assumes "deleteStruct ts tx s = (tx', s')"
  shows "struct_id s' = struct_id s" "struct_length s' = struct_length s" "struct_deleted s'"
    "sclock s' = sclock s" "send s' = send s" "covers s' k = covers s k"
    "\<not> struct_deleted s \<Longrightarrow>
       deleteSet tx' = addToDeleteSet (deleteSet tx) (struct_id s) (struct_length s)"
  using assms by (cases s; auto simp: sclock_def send_def covers_def)+

lemma deleteStruct_dsCovers:
  assumes "deleteStruct ts tx s = (tx', s')" "\<not> struct_deleted s"
  shows "dsCovers (deleteSet tx') c' k \<longleftrightarrow>
         dsCovers (deleteSet tx) c' k \<or> (c' = client (struct_id s) \<and> covers s k)"
  using deleteStruct_props(7)[OF assms]
  by (auto simp: dsCovers_addToDeleteSet covers_def sclock_def)

lemma splitAt_covers:
  assumes "splitAt s d = (l, r)" "d \<le> struct_length s"
  shows "covers l k \<longleftrightarrow> covers s k \<and> k < sclock s + d"
    "covers r k \<longleftrightarrow> covers s k \<and> sclock s + d \<le> k"
  using splitAt_props[OF assms] splitAt_clocks[OF assms]
  by (auto simp: covers_def send_def sclock_def)

lemma contiguous_Cons_later:
  "contiguous (s # rest) \<Longrightarrow> x \<in> set rest \<Longrightarrow> send s \<le> sclock x"
proof (induction rest arbitrary: s)
  case Nil then show ?case by simp
next
  case (Cons y ys)
  have c: "send s = sclock y" "contiguous (y # ys)"
    using Cons.prems(1) by (auto simp: contiguous_successively)
  show ?case
  proof (cases "x = y")
    case True then show ?thesis using c by simp
  next
    case False
    then have "send y \<le> sclock x" using Cons.IH[OF c(2)] Cons.prems(2) by simp
    then show ?thesis using c by (simp add: send_def)
  qed
qed

lemma contiguous_Cons_tail: "contiguous (s # rest) \<Longrightarrow> contiguous rest"
  by (cases rest) (auto simp: contiguous_successively)

lemma unit_Cons:
  "unitKnown (s # rest) k \<longleftrightarrow> covers s k \<or> unitKnown rest k"
  "unitDeleted (s # rest) k \<longleftrightarrow> (covers s k \<and> struct_deleted s) \<or> unitDeleted rest k"
  "unitLive (s # rest) k \<longleftrightarrow> (covers s k \<and> \<not> struct_deleted s) \<or> unitLive rest k"
  "unitKnown [] k = False" "unitDeleted [] k = False" "unitLive [] k = False"
  by (simp_all add: unitKnown_def unitDeleted_def unitLive_def)

lemma unit_later:
  assumes "contiguous (s # rest)" "unitKnown rest k"
  shows "send s \<le> k"
proof -
  obtain x where "x \<in> set rest" "covers x k"
    using assms(2) by (auto simp: unitKnown_def list_ex_iff)
  then show ?thesis using contiguous_Cons_later[OF assms(1), of x] by (simp add: covers_def)
qed

lemma unit_imp_known: "unitDeleted xs k \<Longrightarrow> unitKnown xs k" "unitLive xs k \<Longrightarrow> unitKnown xs k"
  by (auto simp: unitKnown_def unitDeleted_def unitLive_def list_ex_iff)

lemma delSuffix_struct:
  assumes "contiguous suf" "\<forall>s\<in>set suf. client (struct_id s) = c"
    "delSuffix ts tx suf e = (tx', suf')"
  shows "contiguous suf'" "\<forall>s\<in>set suf'. client (struct_id s) = c"
    "suf = [] \<Longrightarrow> suf' = []"
    "suf \<noteq> [] \<Longrightarrow> suf' \<noteq> [] \<and> sclock (hd suf') = sclock (hd suf) \<and>
        send (last suf') = send (last suf)"
proof -
  have "contiguous suf' \<and> (\<forall>s\<in>set suf'. client (struct_id s) = c) \<and>
     (suf = [] \<longrightarrow> suf' = []) \<and>
     (suf \<noteq> [] \<longrightarrow> suf' \<noteq> [] \<and> sclock (hd suf') = sclock (hd suf) \<and>
        send (last suf') = send (last suf))"
    using assms
  proof (induction suf arbitrary: tx tx' suf')
    case Nil
    then show ?case by simp
  next
    case (Cons s rest)
    note cont = Cons.prems(1)
    have cl: "client (struct_id s) = c" "\<forall>x\<in>set rest. client (struct_id x) = c"
      using Cons.prems(2) by simp_all
    have ctl: "contiguous rest" using cont by (rule contiguous_Cons_tail)
    have nxt: "rest \<noteq> [] \<Longrightarrow> send s = sclock (hd rest)"
      using cont by (cases rest) (auto simp: contiguous_successively)
    have glue: "contiguous (x # rest')"
      if "send x = send s" "contiguous rest'" "rest = [] \<longrightarrow> rest' = []"
         "rest \<noteq> [] \<longrightarrow> rest' \<noteq> [] \<and> sclock (hd rest') = sclock (hd rest)" for x rest'
      using that nxt by (cases rest'; cases rest) (auto simp: contiguous_successively)
    have lastc: "send (last (x # rest')) = send (last (s # rest))"
      if "send x = send s" "rest = [] \<longrightarrow> rest' = []"
         "rest \<noteq> [] \<longrightarrow> rest' \<noteq> [] \<and> send (last rest') = send (last rest)" for x rest'
      using that by (cases "rest = []") auto
    show ?case
    proof (cases "sclock s < e")
      case False
      then have r: "tx' = tx" "suf' = s # rest" using Cons.prems(3) by simp_all
      show ?thesis unfolding r using cont Cons.prems(2) by simp
    next
      case lt: True
      show ?thesis
      proof (cases "struct_deleted s")
        case del: True
        obtain tx1 rest' where rec: "delSuffix ts tx rest e = (tx1, rest')"
          by (cases "delSuffix ts tx rest e")
        then have r: "tx' = tx1" "suf' = s # rest'" using Cons.prems(3) lt del by simp_all
        note IH = Cons.IH[OF ctl cl(2) rec]
        have "contiguous (s # rest')" using IH by (intro glue) simp_all
        moreover have "send (last (s # rest')) = send (last (s # rest))"
          using IH by (intro lastc) simp_all
        moreover have "\<forall>x\<in>set (s # rest'). client (struct_id x) = c" using IH cl(1) by simp
        ultimately show ?thesis unfolding r by simp
      next
        case nd: False
        show ?thesis
        proof (cases "e < sclock s + struct_length s")
          case sp: True
          define d where "d = e - sclock s"
          have dle: "d \<le> struct_length s" "sclock s + d = e" using sp lt by (auto simp: d_def)
          obtain l r where lr: "splitAt s d = (l, r)" by (cases "splitAt s d")
          obtain tx1 l' where ds: "deleteStruct ts tx l = (tx1, l')" by (cases "deleteStruct ts tx l")
          have r: "tx' = tx1" "suf' = l' # r # rest"
            using Cons.prems(3) lt nd sp lr ds by (simp_all add: d_def)
          note sc = splitAt_clocks[OF lr dle(1)] and sp' = splitAt_props[OF lr dle(1)]
            and dp = deleteStruct_props[OF ds]
          have "contiguous (l' # r # rest)"
            using contiguous_split[of "[]" s rest l' r] cont sc dp by simp
          moreover have "send (last (l' # r # rest)) = send (last (s # rest))"
            using sc by (cases "rest = []") auto
          moreover have "\<forall>x\<in>set (l' # r # rest). client (struct_id x) = c"
            using dp(1) sp'(1,3) cl by simp
          moreover have "sclock l' = sclock s" using dp(4) sc(1) by simp
          ultimately show ?thesis unfolding r by simp
        next
          case ns: False
          obtain tx1 s' where ds: "deleteStruct ts tx s = (tx1, s')" by (cases "deleteStruct ts tx s")
          obtain tx2 rest' where rec: "delSuffix ts tx1 rest e = (tx2, rest')"
            by (cases "delSuffix ts tx1 rest e")
          have r: "tx' = tx2" "suf' = s' # rest'"
            using Cons.prems(3) lt nd ns ds rec by simp_all
          note IH = Cons.IH[OF ctl cl(2) rec] and dp = deleteStruct_props[OF ds]
          have "contiguous (s' # rest')" using IH dp(5) by (intro glue) simp_all
          moreover have "send (last (s' # rest')) = send (last (s # rest))"
            using IH dp(5) by (intro lastc) simp_all
          moreover have "\<forall>x\<in>set (s' # rest'). client (struct_id x) = c"
            using IH cl(1) dp(1) by simp
          ultimately show ?thesis unfolding r using dp(4) by simp
        qed
      qed
    qed
  qed
  then show "contiguous suf'" "\<forall>s\<in>set suf'. client (struct_id s) = c"
    "suf = [] \<Longrightarrow> suf' = []"
    "suf \<noteq> [] \<Longrightarrow> suf' \<noteq> [] \<and> sclock (hd suf') = sclock (hd suf) \<and>
        send (last suf') = send (last suf)"
    by simp_all
qed

lemma delSuffix_units:
  assumes "contiguous suf" "\<forall>s\<in>set suf. client (struct_id s) = c"
    "delSuffix ts tx suf e = (tx', suf')"
  shows "unitKnown suf' k \<longleftrightarrow> unitKnown suf k"
    "unitDeleted suf' k \<longleftrightarrow> unitDeleted suf k \<or> (unitKnown suf k \<and> k < e)"
    "dsCovers (deleteSet tx') c' k \<longleftrightarrow>
        dsCovers (deleteSet tx) c' k \<or> (c' = c \<and> k < e \<and> unitLive suf k)"
proof -
  have "(unitKnown suf' k \<longleftrightarrow> unitKnown suf k) \<and>
     (unitDeleted suf' k \<longleftrightarrow> unitDeleted suf k \<or> (unitKnown suf k \<and> k < e)) \<and>
     (dsCovers (deleteSet tx') c' k \<longleftrightarrow>
        dsCovers (deleteSet tx) c' k \<or> (c' = c \<and> k < e \<and> unitLive suf k))"
    using assms
  proof (induction suf arbitrary: tx tx' suf')
    case Nil
    then show ?case by (simp add: unit_Cons)
  next
    case (Cons s rest)
    note cont = Cons.prems(1)
    have cl: "client (struct_id s) = c" "\<forall>x\<in>set rest. client (struct_id x) = c"
      using Cons.prems(2) by simp_all
    have ctl: "contiguous rest" using cont by (rule contiguous_Cons_tail)
    have later: "unitKnown rest k \<Longrightarrow> send s \<le> k" using unit_later[OF cont] .
    have kl: "unitLive rest k \<Longrightarrow> unitKnown rest k" "unitDeleted rest k \<Longrightarrow> unitKnown rest k"
      using unit_imp_known by blast+
    show ?case
    proof (cases "sclock s < e")
      case False
      then have r: "tx' = tx" "suf' = s # rest" using Cons.prems(3) by simp_all
      have a1: "unitKnown (s # rest) k \<Longrightarrow> \<not> k < e"
        using False later by (auto simp: covers_def send_def unit_Cons)
      then have a2: "unitLive (s # rest) k \<Longrightarrow> \<not> k < e"
        using unit_imp_known(2)[of "s # rest" k] by blast
      show ?thesis unfolding r using a1 a2 by blast
    next
      case lt: True
      show ?thesis
      proof (cases "struct_deleted s")
        case del: True
        obtain tx1 rest' where rec: "delSuffix ts tx rest e = (tx1, rest')"
          by (cases "delSuffix ts tx rest e")
        then have r: "tx' = tx1" "suf' = s # rest'" using Cons.prems(3) lt del by simp_all
        note IH = Cons.IH[OF ctl cl(2) rec]
        show ?thesis unfolding r unit_Cons using IH del by blast
      next
        case nd: False
        show ?thesis
        proof (cases "e < sclock s + struct_length s")
          case sp: True
          define d where "d = e - sclock s"
          have dle: "d \<le> struct_length s" "sclock s + d = e" using sp lt by (auto simp: d_def)
          obtain l r where lr: "splitAt s d = (l, r)" by (cases "splitAt s d")
          obtain tx1 l' where ds: "deleteStruct ts tx l = (tx1, l')" by (cases "deleteStruct ts tx l")
          have r: "tx' = tx1" "suf' = l' # r # rest"
            using Cons.prems(3) lt nd sp lr ds by (simp_all add: d_def)
          note sp' = splitAt_props[OF lr dle(1)] and dp = deleteStruct_props[OF ds]
          have ndl: "\<not> struct_deleted l" "\<not> struct_deleted r" using sp' nd by simp_all
          have cvl: "covers l' k \<longleftrightarrow> covers s k \<and> k < e"
            using splitAt_covers(1)[OF lr dle(1), of k] dp(6)[of k] dle(2) by simp
          have cvr: "covers r k \<longleftrightarrow> covers s k \<and> e \<le> k"
            using splitAt_covers(2)[OF lr dle(1), of k] dle(2) by simp
          have dsc: "dsCovers (deleteSet tx1) c' k \<longleftrightarrow>
                dsCovers (deleteSet tx) c' k \<or> (c' = c \<and> covers s k \<and> k < e)"
            using deleteStruct_dsCovers[OF ds ndl(1), of c' k] sp'(1) cl(1) cvl dp(6)[of k]
            by simp
          have far: "unitKnown rest k \<Longrightarrow> \<not> k < e"
            using later sp by (auto simp: send_def)
          have k1: "unitKnown (l' # r # rest) k \<longleftrightarrow> unitKnown (s # rest) k"
            unfolding unit_Cons using cvl cvr by auto
          have k2: "unitDeleted (l' # r # rest) k \<longleftrightarrow>
                    unitDeleted (s # rest) k \<or> (unitKnown (s # rest) k \<and> k < e)"
            unfolding unit_Cons using cvl cvr dp(3) nd ndl(2) far kl by blast
          have k3: "dsCovers (deleteSet tx1) c' k \<longleftrightarrow>
                dsCovers (deleteSet tx) c' k \<or> (c' = c \<and> k < e \<and> unitLive (s # rest) k)"
            unfolding unit_Cons using dsc nd far kl by blast
          show ?thesis unfolding r using k1 k2 k3 by blast
        next
          case ns: False
          obtain tx1 s' where ds: "deleteStruct ts tx s = (tx1, s')" by (cases "deleteStruct ts tx s")
          obtain tx2 rest' where rec: "delSuffix ts tx1 rest e = (tx2, rest')"
            by (cases "delSuffix ts tx1 rest e")
          have r: "tx' = tx2" "suf' = s' # rest'"
            using Cons.prems(3) lt nd ns ds rec by simp_all
          note IH = Cons.IH[OF ctl cl(2) rec] and dp = deleteStruct_props[OF ds]
          have dsc: "dsCovers (deleteSet tx1) c' k \<longleftrightarrow>
                dsCovers (deleteSet tx) c' k \<or> (c' = c \<and> covers s k)"
            using deleteStruct_dsCovers[OF ds nd, of c' k] cl(1) by simp
          have se: "covers s k \<Longrightarrow> k < e" using ns by (auto simp: covers_def)
          have cv: "covers s' k = covers s k" using dp(6) .
          have k1: "unitKnown (s' # rest') k \<longleftrightarrow> unitKnown (s # rest) k"
            unfolding unit_Cons using IH cv by blast
          have k2: "unitDeleted (s' # rest') k \<longleftrightarrow>
                    unitDeleted (s # rest) k \<or> (unitKnown (s # rest) k \<and> k < e)"
            unfolding unit_Cons using IH cv dp(3) nd se by blast
          have k3: "dsCovers (deleteSet tx2) c' k \<longleftrightarrow>
                dsCovers (deleteSet tx) c' k \<or> (c' = c \<and> k < e \<and> unitLive (s # rest) k)"
            unfolding unit_Cons using IH dsc nd se by blast
          show ?thesis unfolding r using k1 k2 k3 by blast
        qed
      qed
    qed
  qed
  then show "unitKnown suf' k \<longleftrightarrow> unitKnown suf k"
    "unitDeleted suf' k \<longleftrightarrow> unitDeleted suf k \<or> (unitKnown suf k \<and> k < e)"
    "dsCovers (deleteSet tx') c' k \<longleftrightarrow>
        dsCovers (deleteSet tx) c' k \<or> (c' = c \<and> k < e \<and> unitLive suf k)"
    by blast+
qed

lemma unit_append:
  "unitKnown (P @ S) k \<longleftrightarrow> unitKnown P k \<or> unitKnown S k"
  "unitDeleted (P @ S) k \<longleftrightarrow> unitDeleted P k \<or> unitDeleted S k"
  "unitLive (P @ S) k \<longleftrightarrow> unitLive P k \<or> unitLive S k"
  by (auto simp: unitKnown_def unitDeleted_def unitLive_def list_ex_iff)

lemma known_interval:
  assumes "contiguous S" "S \<noteq> []"
  shows "unitKnown S k \<longleftrightarrow> sclock (hd S) \<le> k \<and> k < send (last S)"
proof
  assume "unitKnown S k"
  then obtain j where "j < length S" "covers (S ! j) k"
    by (auto simp: unitKnown_def list_ex_iff in_set_conv_nth)
  then show "sclock (hd S) \<le> k \<and> k < send (last S)"
    using covers_in_interval[OF assms(1)] by blast
next
  assume "sclock (hd S) \<le> k \<and> k < send (last S)"
  then obtain i where "i < length S" "covers (S ! i) k"
    using covers_exists[OF assms, of k] by blast
  then show "unitKnown S k" by (auto simp: unitKnown_def list_ex_iff)
qed

lemma contiguous_append_parts:
  "contiguous (P @ S) \<Longrightarrow> contiguous P" "contiguous (P @ S) \<Longrightarrow> contiguous S"
  by (simp_all add: contiguous_successively successively_append_iff)

lemma contiguous_replace_suffix:
  assumes "contiguous (P @ S)" "contiguous S'" "S = [] \<longrightarrow> S' = []"
    "S \<noteq> [] \<longrightarrow> S' \<noteq> [] \<and> sclock (hd S') = sclock (hd S)"
  shows "contiguous (P @ S')"
  using assms by (auto simp: contiguous_successively successively_append_iff)

lemma before_pivot:
  assumes "contiguous (A @ s # B)" "unitKnown A k"
  shows "k < sclock s"
proof -
  obtain i where i: "i < length A" "covers (A ! i) k"
    using assms(2) by (auto simp: unitKnown_def list_ex_iff in_set_conv_nth)
  have "send ((A @ s # B) ! i) \<le> sclock ((A @ s # B) ! length A)"
    using i(1) by (intro contiguous_mono[OF assms(1)]) simp_all
  then show ?thesis using i by (simp add: nth_append covers_def send_def)
qed

lemma unit_single:
  "unitKnown [s] k = covers s k" "unitDeleted [s] k = (covers s k \<and> struct_deleted s)"
  "unitLive [s] k = (covers s k \<and> \<not> struct_deleted s)"
  by (simp_all add: unit_Cons)

lemma arrayOK_iff:
  "arrayOK c structs \<longleftrightarrow> contiguous structs \<and> (\<forall>s\<in>set structs. client (struct_id s) = c) \<and>
     (structs \<noteq> [] \<longrightarrow> sclock (hd structs) = 0)"
  by (cases structs) (auto simp: arrayOK_def list_all_iff)

lemma readDeleteSet_range_parked:
  assumes "arrayState structs \<le> clk"
  shows "readDeleteSet_range ts tx u structs c (arrayState structs) clk n =
           Inr (tx, parkRange c (arrayState structs) u clk n, structs)"
  using assms by (simp add: readDeleteSet_range_def parkRange_def)

lemma readDeleteSet_range_applied:
  assumes ok: "arrayOK c structs" and lt: "clk < arrayState structs"
  shows "\<exists>tx' structs'.
     readDeleteSet_range ts tx u structs c (arrayState structs) clk n =
       Inr (tx', parkRange c (arrayState structs) u clk n, structs') \<and>
     arrayOK c structs' \<and> structs' \<noteq> [] \<and> arrayState structs' = arrayState structs \<and>
     (\<forall>k. unitKnown structs' k \<longleftrightarrow> unitKnown structs k) \<and>
     (\<forall>k. unitDeleted structs' k \<longleftrightarrow>
        unitDeleted structs k \<or> (clk \<le> k \<and> k < clk + n \<and> k < arrayState structs)) \<and>
     (\<forall>c' k. dsCovers (deleteSet tx') c' k \<longleftrightarrow>
        dsCovers (deleteSet tx) c' k \<or>
        (c' = c \<and> clk \<le> k \<and> k < clk + n \<and> unitLive structs k))"
proof -
  let ?state = "arrayState structs" and ?e = "clk + n"
  have ne: "structs \<noteq> []" using lt by (auto simp: arrayState_def)
  have st: "?state = send (last structs)" using ne by (simp add: arrayState_def)
  have cont: "contiguous structs" and cl: "\<forall>s\<in>set structs. client (struct_id s) = c"
    and h0: "sclock (hd structs) = 0"
    using ok ne by (simp_all add: arrayOK_iff)
  obtain index where f: "findIndexSS structs clk = Inr index" "index < length structs"
    "covers (structs ! index) clk"
    using findIndexSS_inside[OF cont ne, of clk] h0 lt st by auto
  let ?s = "structs ! index" and ?A = "take index structs" and ?B = "drop (Suc index) structs"
  have dec: "structs = ?A @ ?s # ?B" using f(2) by (simp add: id_take_nth_drop[symmetric])
  have contd: "contiguous (?A @ ?s # ?B)" using cont dec by simp
  have below: "unitKnown ?A k \<Longrightarrow> k < sclock ?s" for k using before_pivot[OF contd] .
  have above: "unitKnown ?B k \<Longrightarrow> send ?s \<le> k" for k
    using unit_later[of ?s ?B k] contiguous_append_parts(2)[OF contd] by simp
  have lastB: "send (last (?s # ?B)) = ?state" using dec st by (metis last_appendR list.discI)
  have clA: "\<forall>x\<in>set ?A. client (struct_id x) = c" and clB: "\<forall>x\<in>set ?B. client (struct_id x) = c"
    and cls: "client (struct_id ?s) = c"
    using cl f(2) by (auto dest: in_set_takeD in_set_dropD)
  have hdA: "sclock (hd (?A @ X)) = 0" if "X \<noteq> [] \<and> (index = 0 \<longrightarrow> sclock (hd X) = 0)" for X
    using that h0 f(2) ne by (cases "index = 0") (auto simp: hd_append hd_take)
  show ?thesis
  proof (cases "\<not> struct_deleted ?s \<and> sclock ?s < clk")
    case True
    define d where "d = clk - sclock ?s"
    have dle: "d \<le> struct_length ?s" "sclock ?s + d = clk"
      using True f(3) by (auto simp: d_def covers_def)
    obtain l r where lr: "splitAt ?s d = (l, r)" by (cases "splitAt ?s d")
    note sc = splitAt_clocks[OF lr dle(1)] and sp = splitAt_props[OF lr dle(1)]
      and cv = splitAt_covers[OF lr dle(1)]
    let ?structs1 = "?A @ l # r # ?B"
    have s1: "splice_insert (index + 1) r (structs[index := l]) = ?structs1"
      using splice_insert_update[OF f(2)] by simp
    have c1: "contiguous ?structs1" using contd sc by (rule contiguous_split)
    have dr1: "drop (index + 1) ?structs1 = r # ?B" "take (index + 1) ?structs1 = ?A @ [l]"
      using f(2) by simp_all
    obtain tx' suf' where dsuf: "delSuffix ts tx (r # ?B) ?e = (tx', suf')"
      by (cases "delSuffix ts tx (r # ?B) ?e")
    have dl: "deleteLoop ts tx ?structs1 (index + 1) clk n = (tx', ?A @ l # suf')"
      using deleteLoop_delSuffix[of "index + 1" ?structs1 ts tx clk n] f(2) dsuf dr1 by simp
    have res: "readDeleteSet_range ts tx u structs c ?state clk n =
        Inr (tx', parkRange c ?state u clk n, ?A @ l # suf')"
      using lt f(1) True lr s1 dl
      by (simp add: readDeleteSet_range_def parkRange_def Let_def d_def)
    have crB: "contiguous (r # ?B)"
      using contiguous_append_parts(2)[of "?A @ [l]" "r # ?B"] c1 by simp
    have clrB: "\<forall>x\<in>set (r # ?B). client (struct_id x) = c" using clB sp(3) cls by simp
    note ss = delSuffix_struct[OF crB clrB dsuf] and su = delSuffix_units[OF crB clrB dsuf]
    have lastrB: "send (last (r # ?B)) = ?state"
      using lastB sc(3) by (cases "?B = []") simp_all
    have sufne: "suf' \<noteq> []" "sclock (hd suf') = clk" "send (last suf') = ?state"
      using ss(4) sp(4) dle(2) lastrB by simp_all
    have c1': "contiguous ((?A @ [l]) @ r # ?B)" using c1 by simp
    have hd': "r # ?B \<noteq> [] \<longrightarrow> suf' \<noteq> [] \<and> sclock (hd suf') = sclock (hd (r # ?B))"
      using ss(4) by simp
    have c2: "contiguous ((?A @ [l]) @ suf')"
      by (rule contiguous_replace_suffix[OF c1' ss(1) _ hd']) simp
    have i0: "index = 0 \<longrightarrow> sclock ?s = 0" using h0 ne by (simp add: hd_conv_nth)
    have hd2: "sclock (hd (?A @ l # suf')) = 0"
      by (rule hdA) (use i0 sc(1) in simp)
    have cl2: "\<forall>x\<in>set (?A @ l # suf'). client (struct_id x) = c"
      using clA ss(2) sp(1) cls by auto
    have ok': "arrayOK c (?A @ l # suf')"
      unfolding arrayOK_iff using c2 cl2 hd2 by simp
    have st': "arrayState (?A @ l # suf') = ?state"
      using sufne by (simp add: arrayState_def)
    have ndl: "\<not> struct_deleted l" "\<not> struct_deleted r" using sp True by simp_all
    have knownr: "unitKnown (r # ?B) k \<longleftrightarrow> clk \<le> k \<and> k < ?state" for k
      using known_interval[OF crB, of k] sp(4) dle(2) lastrB by simp
    have K: "unitKnown (?A @ l # suf') k \<longleftrightarrow> unitKnown structs k" for k
    proof -
      have "unitKnown (?A @ l # suf') k \<longleftrightarrow> unitKnown ?A k \<or> covers l k \<or> unitKnown (r # ?B) k"
        using su(1)[of k] by (simp add: unit_append unit_Cons)
      also have "\<dots> \<longleftrightarrow> unitKnown (?A @ ?s # ?B) k"
        using cv dle by (auto simp: unit_append unit_Cons)
      finally show ?thesis using dec by simp
    qed
    have D: "unitDeleted (?A @ l # suf') k \<longleftrightarrow>
        unitDeleted structs k \<or> (clk \<le> k \<and> k < ?e \<and> k < ?state)" for k
    proof -
      have "unitDeleted (?A @ l # suf') k \<longleftrightarrow>
          unitDeleted ?A k \<or> unitDeleted (r # ?B) k \<or> (unitKnown (r # ?B) k \<and> k < ?e)"
        using su(2)[of k] ndl by (simp add: unit_append unit_Cons)
      also have "\<dots> \<longleftrightarrow> unitDeleted (?A @ ?s # ?B) k \<or> (clk \<le> k \<and> k < ?e \<and> k < ?state)"
        using knownr[of k] ndl True by (auto simp: unit_append unit_Cons)
      finally show ?thesis using dec by simp
    qed
    have L: "dsCovers (deleteSet tx') c' k \<longleftrightarrow>
        dsCovers (deleteSet tx) c' k \<or> (c' = c \<and> clk \<le> k \<and> k < ?e \<and> unitLive structs k)" for c' k
    proof -
      have "unitLive (r # ?B) k \<longleftrightarrow> clk \<le> k \<and> unitLive (?A @ ?s # ?B) k"
        using cv(2)[of k] dle ndl True below[of k] above[of k] f(3)
          unit_imp_known(2)[of ?A k] unit_imp_known(2)[of ?B k]
        by (auto simp: unit_append unit_Cons covers_def send_def)
      then show ?thesis using su(3)[of c' k] dec by auto
    qed
    have nonempty: "?A @ l # suf' \<noteq> []" by simp
    show ?thesis using res ok' nonempty st' K D L by blast
  next
    case False
    obtain tx' suf' where dsuf: "delSuffix ts tx (?s # ?B) ?e = (tx', suf')"
      by (cases "delSuffix ts tx (?s # ?B) ?e")
    have drp: "drop index structs = ?s # ?B" using f(2) by (simp add: Cons_nth_drop_Suc)
    have dl: "deleteLoop ts tx structs index clk n = (tx', ?A @ suf')"
      using deleteLoop_delSuffix[of index structs ts tx clk n] f(2) dsuf drp by simp
    have res: "readDeleteSet_range ts tx u structs c ?state clk n =
        Inr (tx', parkRange c ?state u clk n, ?A @ suf')"
      using lt f(1) False dl
      by (auto simp: readDeleteSet_range_def parkRange_def Let_def)
    have csB: "contiguous (?s # ?B)" using contiguous_append_parts(2)[OF contd] .
    have clsB: "\<forall>x\<in>set (?s # ?B). client (struct_id x) = c" using clB cls by simp
    note ss = delSuffix_struct[OF csB clsB dsuf] and su = delSuffix_units[OF csB clsB dsuf]
    have sufne: "suf' \<noteq> []" "sclock (hd suf') = sclock ?s" "send (last suf') = ?state"
      using ss(4) lastB by simp_all
    have hd': "?s # ?B \<noteq> [] \<longrightarrow> suf' \<noteq> [] \<and> sclock (hd suf') = sclock (hd (?s # ?B))"
      using ss(4) by simp
    have c2: "contiguous (?A @ suf')"
      by (rule contiguous_replace_suffix[OF contd ss(1) _ hd']) simp
    have i0: "index = 0 \<longrightarrow> sclock ?s = 0" using h0 ne by (simp add: hd_conv_nth)
    have hd2: "sclock (hd (?A @ suf')) = 0"
      by (rule hdA) (use i0 sufne in simp)
    have cl2: "\<forall>x\<in>set (?A @ suf'). client (struct_id x) = c"
      using clA ss(2) by auto
    have ok': "arrayOK c (?A @ suf')"
      unfolding arrayOK_iff using c2 cl2 hd2 by simp
    have st': "arrayState (?A @ suf') = ?state"
      using sufne by (simp add: arrayState_def)
    have knowns: "unitKnown (?s # ?B) k \<longleftrightarrow> sclock ?s \<le> k \<and> k < ?state" for k
      using known_interval[OF csB, of k] lastB by simp
    have alt: "struct_deleted ?s \<or> sclock ?s = clk" using False f(3) by (auto simp: covers_def)
    have K: "unitKnown (?A @ suf') k \<longleftrightarrow> unitKnown structs k" for k
      using su(1)[of k] dec by (metis unit_append(1))
    have D: "unitDeleted (?A @ suf') k \<longleftrightarrow>
        unitDeleted structs k \<or> (clk \<le> k \<and> k < ?e \<and> k < ?state)" for k
    proof -
      have "unitDeleted (?A @ suf') k \<longleftrightarrow>
          unitDeleted ?A k \<or> unitDeleted (?s # ?B) k \<or> (unitKnown (?s # ?B) k \<and> k < ?e)"
        using su(2)[of k] by (simp add: unit_append)
      also have "\<dots> \<longleftrightarrow> unitDeleted (?A @ ?s # ?B) k \<or> (clk \<le> k \<and> k < ?e \<and> k < ?state)"
        using knowns[of k] alt f(3) by (auto simp: unit_append unit_Cons covers_def)
      finally show ?thesis using dec by simp
    qed
    have L: "dsCovers (deleteSet tx') c' k \<longleftrightarrow>
        dsCovers (deleteSet tx) c' k \<or> (c' = c \<and> clk \<le> k \<and> k < ?e \<and> unitLive structs k)" for c' k
    proof -
      have "unitLive (?s # ?B) k \<and> k < ?e \<longleftrightarrow> clk \<le> k \<and> k < ?e \<and> unitLive (?A @ ?s # ?B) k"
        using alt below[of k] above[of k] f(3)
          unit_imp_known(2)[of ?A k] unit_imp_known(2)[of ?B k]
        by (auto simp: unit_append unit_Cons covers_def send_def)
      then show ?thesis using su(3)[of c' k] dec by auto
    qed
    have nonempty: "?A @ suf' \<noteq> []" using sufne(1) by simp
    show ?thesis using res ok' nonempty st' K D L by blast
  qed
qed

lemma unitLive_iff:
  assumes "contiguous S"
  shows "unitLive S k \<longleftrightarrow> unitKnown S k \<and> \<not> unitDeleted S k"
proof -
  have "False" if h: "x \<in> set S" "covers x k" "\<not> struct_deleted x"
    "y \<in> set S" "covers y k" "struct_deleted y" for x y
  proof -
    obtain i j where "i < length S" "S ! i = x" "j < length S" "S ! j = y"
      using h(1,4) by (auto simp: in_set_conv_nth)
    then show False using covers_unique[OF assms, of i j k] h by auto
  qed
  then show ?thesis
    unfolding unitLive_def unitKnown_def unitDeleted_def list_ex_iff by blast
qed

lemma readDeleteSet_deletes_spec:
  assumes "arrayOK c structs"
  shows "\<exists>tx' structs'.
     readDeleteSet_deletes ts (length dsitems) (encodeRanges dsitems @ rest) tx u structs c
         (arrayState structs) =
       Inr (rest, tx', parkAll c (arrayState structs) dsitems u, structs') \<and>
     arrayOK c structs' \<and> (structs' = [] \<longleftrightarrow> structs = []) \<and>
     arrayState structs' = arrayState structs \<and>
     (\<forall>k. unitKnown structs' k \<longleftrightarrow> unitKnown structs k) \<and>
     (\<forall>k. unitDeleted structs' k \<longleftrightarrow>
        unitDeleted structs k \<or> (inRanges dsitems k \<and> k < arrayState structs)) \<and>
     (\<forall>c' k. dsCovers (deleteSet tx') c' k \<longleftrightarrow>
        dsCovers (deleteSet tx) c' k \<or> (c' = c \<and> inRanges dsitems k \<and> unitLive structs k)) \<and>
     (list_all (\<lambda>d. arrayState structs \<le> dclock d) dsitems \<longrightarrow> tx' = tx \<and> structs' = structs)"
  using assms
proof (induction dsitems arbitrary: tx u structs)
  case Nil
  then show ?case by (simp add: encodeRanges_def parkAll_def inRanges_def)
next
  case (Cons d dsitems)
  let ?st = "arrayState structs" and ?clk = "dclock d" and ?n = "len d"
  have enc: "encodeRanges (d # dsitems) @ rest = ?clk # ?n # encodeRanges dsitems @ rest"
    by (simp add: encodeRanges_def)
  have "\<exists>tx1 structs1.
     readDeleteSet_range ts tx u structs c ?st ?clk ?n =
       Inr (tx1, parkRange c ?st u ?clk ?n, structs1) \<and>
     arrayOK c structs1 \<and> (structs1 = [] \<longleftrightarrow> structs = []) \<and> arrayState structs1 = ?st \<and>
     (\<forall>k. unitKnown structs1 k \<longleftrightarrow> unitKnown structs k) \<and>
     (\<forall>k. unitDeleted structs1 k \<longleftrightarrow>
        unitDeleted structs k \<or> (?clk \<le> k \<and> k < ?clk + ?n \<and> k < ?st)) \<and>
     (\<forall>c' k. dsCovers (deleteSet tx1) c' k \<longleftrightarrow>
        dsCovers (deleteSet tx) c' k \<or>
        (c' = c \<and> ?clk \<le> k \<and> k < ?clk + ?n \<and> unitLive structs k)) \<and>
     (?st \<le> ?clk \<longrightarrow> tx1 = tx \<and> structs1 = structs)"
  proof (cases "?clk < ?st")
    case True
    then have "structs \<noteq> []" by (auto simp: arrayState_def)
    then show ?thesis
      using True readDeleteSet_range_applied[OF Cons.prems True, of ts tx u ?n] by auto
  next
    case False
    then have p: "?st \<le> ?clk" by simp
    have "\<not> (?clk \<le> k \<and> k < ?clk + ?n \<and> k < ?st)" for k using p by simp
    moreover have "\<not> (?clk \<le> k \<and> k < ?clk + ?n \<and> unitLive structs k)" for k
    proof
      assume a: "?clk \<le> k \<and> k < ?clk + ?n \<and> unitLive structs k"
      then have "unitKnown structs k" using unit_imp_known(2) by blast
      then have "structs \<noteq> [] \<and> k < send (last structs)"
        using known_interval[of structs k] Cons.prems
        by (cases "structs = []") (auto simp: arrayOK_iff unit_Cons)
      then show False using a p by (simp add: arrayState_def)
    qed
    ultimately show ?thesis
      using readDeleteSet_range_parked[OF p, of ts tx u c ?n] Cons.prems by auto
  qed
  then obtain tx1 structs1 where r1:
     "readDeleteSet_range ts tx u structs c ?st ?clk ?n =
       Inr (tx1, parkRange c ?st u ?clk ?n, structs1)"
     "arrayOK c structs1" "arrayState structs1 = ?st"
     "structs1 = [] \<longleftrightarrow> structs = []"
     "\<And>k. unitKnown structs1 k \<longleftrightarrow> unitKnown structs k"
     "\<And>k. unitDeleted structs1 k \<longleftrightarrow>
        unitDeleted structs k \<or> (?clk \<le> k \<and> k < ?clk + ?n \<and> k < ?st)"
     "\<And>c' k. dsCovers (deleteSet tx1) c' k \<longleftrightarrow>
        dsCovers (deleteSet tx) c' k \<or>
        (c' = c \<and> ?clk \<le> k \<and> k < ?clk + ?n \<and> unitLive structs k)"
     "?st \<le> ?clk \<longrightarrow> tx1 = tx \<and> structs1 = structs"
    by blast
  obtain tx' structs' where r2:
     "readDeleteSet_deletes ts (length dsitems) (encodeRanges dsitems @ rest) tx1
         (parkRange c ?st u ?clk ?n) structs1 c ?st =
       Inr (rest, tx', parkAll c ?st dsitems (parkRange c ?st u ?clk ?n), structs')"
     "arrayOK c structs'" "arrayState structs' = ?st"
     "structs' = [] \<longleftrightarrow> structs1 = []"
     "\<And>k. unitKnown structs' k \<longleftrightarrow> unitKnown structs1 k"
     "\<And>k. unitDeleted structs' k \<longleftrightarrow>
        unitDeleted structs1 k \<or> (inRanges dsitems k \<and> k < ?st)"
     "\<And>c' k. dsCovers (deleteSet tx') c' k \<longleftrightarrow>
        dsCovers (deleteSet tx1) c' k \<or> (c' = c \<and> inRanges dsitems k \<and> unitLive structs1 k)"
     "list_all (\<lambda>d. ?st \<le> dclock d) dsitems \<longrightarrow> tx' = tx1 \<and> structs' = structs1"
    using Cons.IH[OF r1(2), of tx1 "parkRange c ?st u ?clk ?n"] r1(3) by auto
  have res: "readDeleteSet_deletes ts (length (d # dsitems)) (encodeRanges (d # dsitems) @ rest)
         tx u structs c ?st =
       Inr (rest, tx', parkAll c ?st (d # dsitems) u, structs')"
    unfolding enc using r1(1) r2(1) by (simp add: readVarUint_def parkAll_def)
  have inr: "inRanges (d # dsitems) k \<longleftrightarrow> (?clk \<le> k \<and> k < ?clk + ?n) \<or> inRanges dsitems k" for k
    by (simp add: inRanges_def)
  have c0: "contiguous structs" "contiguous structs1"
    using Cons.prems r1(2) by (simp_all add: arrayOK_iff)
  have K: "unitKnown structs' k \<longleftrightarrow> unitKnown structs k" for k using r1(5) r2(5) by simp
  have D: "unitDeleted structs' k \<longleftrightarrow>
        unitDeleted structs k \<or> (inRanges (d # dsitems) k \<and> k < ?st)" for k
    unfolding inr using r1(6)[of k] r2(6)[of k] by blast
  have L: "dsCovers (deleteSet tx') c' k \<longleftrightarrow>
        dsCovers (deleteSet tx) c' k \<or> (c' = c \<and> inRanges (d # dsitems) k \<and> unitLive structs k)" for c' k
  proof -
    have lv: "unitLive structs k \<Longrightarrow> k < ?st"
      using known_interval[of structs k] c0(1) unit_imp_known(2)[of structs k]
      by (cases "structs = []") (auto simp: arrayState_def unit_Cons)
    have "unitLive structs1 k \<longleftrightarrow> unitLive structs k \<and> \<not> (?clk \<le> k \<and> k < ?clk + ?n)"
      unfolding unitLive_iff[OF c0(1)] unitLive_iff[OF c0(2)] r1(5) r1(6)
      using lv unitLive_iff[OF c0(1), of k] by blast
    then show ?thesis unfolding inr using r1(7)[of c' k] r2(7)[of c' k] by blast
  qed
  have U: "list_all (\<lambda>x. ?st \<le> dclock x) (d # dsitems) \<longrightarrow> tx' = tx \<and> structs' = structs"
    using r1(8) r2(8) by simp
  have E: "structs' = [] \<longleftrightarrow> structs = []" using r1(4) r2(4) by simp
  show ?case using res r2(2,3) E K D L U by blast
qed

lemma storeOK_array: "storeOK store \<Longrightarrow> arrayOK c (structsOf store c)"
  unfolding storeOK_def structsOf_def
  by (cases "clients store c") (auto simp: arrayOK_def contiguous_def integretyCheck_def dest: spec[of _ c])

lemma storeOK_getState:
  "storeOK store \<Longrightarrow> getState store c = Inr (knownState store c)"
  unfolding storeOK_def knownState_def structsOf_def getState_def arrayState_def
  by (cases "clients store c") (auto simp: send_def dest: spec[of _ c])

lemma storeOK_nonempty:
  "storeOK store \<Longrightarrow> clients store c = Some ss \<Longrightarrow> ss \<noteq> []"
  unfolding storeOK_def by (auto dest: spec[of _ c])

lemma dsCovers_Cons:
  "dsCovers ((c, dsitems) # ds) c' k \<longleftrightarrow> (c' = c \<and> inRanges dsitems k) \<or> dsCovers ds c' k"
  by (auto simp: dsCovers_def inRanges_def)

lemma unitLive_below:
  assumes "arrayOK c structs" "unitLive structs k"
  shows "k < arrayState structs"
proof -
  have "unitKnown structs k" using assms(2) unit_imp_known(2) by blast
  then show ?thesis
    using known_interval[of structs k] assms(1)
    by (cases "structs = []") (auto simp: arrayState_def arrayOK_iff unit_Cons)
qed

lemma readDeleteSet_clients_spec:
  assumes "storeOK store"
  shows "\<exists>tx' store'.
     readDeleteSet_clients ts (length ds) (encodeClients ds @ rest) tx u store =
       Inr (rest, tx', parkedRanges (knownState store) ds u, store') \<and>
     storeOK store' \<and> knownState store' = knownState store \<and>
     clientKeys store' = clientKeys store \<and>
     pendingDeleteReaders store' = pendingDeleteReaders store \<and>
     (\<forall>c k. unitKnown (structsOf store' c) k \<longleftrightarrow> unitKnown (structsOf store c) k) \<and>
     (\<forall>c k. unitDeleted (structsOf store' c) k \<longleftrightarrow>
        unitDeleted (structsOf store c) k \<or> (dsCovers ds c k \<and> k < knownState store c)) \<and>
     (\<forall>c k. dsCovers (deleteSet tx') c k \<longleftrightarrow>
        dsCovers (deleteSet tx) c k \<or> (dsCovers ds c k \<and> unitLive (structsOf store c) k)) \<and>
     (allUnknown (knownState store) ds \<longrightarrow> tx' = tx \<and> store' = store)"
  using assms
proof (induction ds arbitrary: tx u store)
  case Nil
  then show ?case by (simp add: encodeClients_def dsCovers_def allUnknown_def)
next
  case (Cons cd ds)
  obtain c dsitems where cd: "cd = (c, dsitems)" by (cases cd)
  let ?structs = "structsOf store c" and ?st = "knownState store c"
  have st: "?st = arrayState ?structs" by (simp add: knownState_def)
  have enc: "encodeClients (cd # ds) @ rest =
      c # length dsitems # encodeRanges dsitems @ (encodeClients ds @ rest)"
    by (simp add: encodeClients_def cd)
  have ok: "arrayOK c ?structs" using storeOK_array[OF Cons.prems] .
  obtain tx1 structs1 where r1:
     "readDeleteSet_deletes ts (length dsitems) (encodeRanges dsitems @ (encodeClients ds @ rest))
         tx u ?structs c ?st =
       Inr (encodeClients ds @ rest, tx1, parkAll c ?st dsitems u, structs1)"
     "arrayOK c structs1" "structs1 = [] \<longleftrightarrow> ?structs = []"
     "arrayState structs1 = ?st"
     "\<And>k. unitKnown structs1 k \<longleftrightarrow> unitKnown ?structs k"
     "\<And>k. unitDeleted structs1 k \<longleftrightarrow>
        unitDeleted ?structs k \<or> (inRanges dsitems k \<and> k < ?st)"
     "\<And>c' k. dsCovers (deleteSet tx1) c' k \<longleftrightarrow>
        dsCovers (deleteSet tx) c' k \<or> (c' = c \<and> inRanges dsitems k \<and> unitLive ?structs k)"
     "list_all (\<lambda>d. ?st \<le> dclock d) dsitems \<longrightarrow> tx1 = tx \<and> structs1 = ?structs"
    using readDeleteSet_deletes_spec[OF ok, of ts dsitems "encodeClients ds @ rest" tx u]
    unfolding st by blast
  define store1 where "store1 =
     (case clients store c of
        Some ss \<Rightarrow> store\<lparr>clients := (clients store)(c \<mapsto> structs1)\<rparr>
      | None \<Rightarrow> store)"
  have s1c: "structsOf store1 c = structs1"
  proof (cases "clients store c")
    case None
    then have "?structs = []" by (simp add: structsOf_def)
    then show ?thesis using None r1(3) by (simp add: store1_def structsOf_def)
  next
    case (Some ss)
    then show ?thesis by (simp add: store1_def structsOf_def)
  qed
  have s1o: "c' \<noteq> c \<Longrightarrow> structsOf store1 c' = structsOf store c'" for c'
    by (cases "clients store c") (simp_all add: store1_def structsOf_def)
  have ks: "knownState store1 = knownState store"
  proof
    fix c' show "knownState store1 c' = knownState store c'"
      using s1c s1o[of c'] r1(4) by (cases "c' = c") (simp_all add: knownState_def)
  qed
  have ok1: "storeOK store1"
    unfolding storeOK_def
  proof
    fix c'
    show "case clients store1 c' of None \<Rightarrow> True | Some ss \<Rightarrow> ss \<noteq> [] \<and> arrayOK c' ss"
    proof (cases "clients store c")
      case None
      then show ?thesis using Cons.prems by (simp add: store1_def storeOK_def)
    next
      case (Some ss)
      then have "?structs = ss" "ss \<noteq> []"
        using storeOK_nonempty[OF Cons.prems Some] by (simp_all add: structsOf_def)
      then have "structs1 \<noteq> []" using r1(3) by simp
      then show ?thesis
        using Some r1(2) Cons.prems by (cases "c' = c") (auto simp: store1_def storeOK_def)
    qed
  qed
  have oth: "clientKeys store1 = clientKeys store"
    "pendingDeleteReaders store1 = pendingDeleteReaders store"
    by (cases "clients store c"; simp add: store1_def)+
  obtain tx' store' where r2:
     "readDeleteSet_clients ts (length ds) (encodeClients ds @ rest) tx1
         (parkAll c ?st dsitems u) store1 =
       Inr (rest, tx', parkedRanges (knownState store) ds (parkAll c ?st dsitems u), store')"
     "storeOK store'" "knownState store' = knownState store"
     "clientKeys store' = clientKeys store"
     "pendingDeleteReaders store' = pendingDeleteReaders store"
     "\<And>c k. unitKnown (structsOf store' c) k \<longleftrightarrow> unitKnown (structsOf store1 c) k"
     "\<And>c k. unitDeleted (structsOf store' c) k \<longleftrightarrow>
        unitDeleted (structsOf store1 c) k \<or> (dsCovers ds c k \<and> k < knownState store c)"
     "\<And>c k. dsCovers (deleteSet tx') c k \<longleftrightarrow>
        dsCovers (deleteSet tx1) c k \<or> (dsCovers ds c k \<and> unitLive (structsOf store1 c) k)"
     "allUnknown (knownState store) ds \<longrightarrow> tx' = tx1 \<and> store' = store1"
    using Cons.IH[OF ok1, of tx1 "parkAll c ?st dsitems u"] unfolding ks oth by blast
  have res: "readDeleteSet_clients ts (length (cd # ds)) (encodeClients (cd # ds) @ rest) tx u store =
       Inr (rest, tx', parkedRanges (knownState store) (cd # ds) u, store')"
    unfolding enc using r1(1) r2(1) storeOK_getState[OF Cons.prems, of c]
    by (simp add: readVarUint_def cd store1_def structsOf_def Let_def)
  have K: "unitKnown (structsOf store' c') k \<longleftrightarrow> unitKnown (structsOf store c') k" for c' k
    using r2(6)[of c' k] r1(5)[of k] s1c s1o[of c'] by (cases "c' = c") simp_all
  have D: "unitDeleted (structsOf store' c') k \<longleftrightarrow>
        unitDeleted (structsOf store c') k \<or> (dsCovers (cd # ds) c' k \<and> k < knownState store c')" for c' k
    unfolding cd dsCovers_Cons
    using r2(7)[of c' k] r1(6)[of k] s1c s1o[of c'] by (cases "c' = c") auto
  have L: "dsCovers (deleteSet tx') c' k \<longleftrightarrow>
        dsCovers (deleteSet tx) c' k \<or> (dsCovers (cd # ds) c' k \<and> unitLive (structsOf store c') k)" for c' k
  proof (cases "c' = c")
    case False
    then show ?thesis unfolding cd dsCovers_Cons
      using r2(8)[of c' k] r1(7)[of c' k] s1o[of c'] by auto
  next
    case True
    have c0: "contiguous ?structs" "contiguous structs1"
      using ok r1(2) by (simp_all add: arrayOK_iff)
    have lv: "unitKnown ?structs k \<Longrightarrow> \<not> unitDeleted ?structs k \<Longrightarrow> k < ?st"
      using unitLive_below[OF ok, of k] unitLive_iff[OF c0(1), of k] st by simp
    have "unitLive structs1 k \<longleftrightarrow> unitLive ?structs k \<and> \<not> inRanges dsitems k"
      unfolding unitLive_iff[OF c0(1)] unitLive_iff[OF c0(2)] r1(5) r1(6)
      using lv by blast
    then show ?thesis unfolding cd dsCovers_Cons True
      using r2(8)[of c k] r1(7)[of c k] s1c by auto
  qed
  have U: "allUnknown (knownState store) (cd # ds) \<longrightarrow> tx' = tx \<and> store' = store"
  proof
    assume a: "allUnknown (knownState store) (cd # ds)"
    then have "tx1 = tx" "structs1 = ?structs" "tx' = tx1" "store' = store1"
      using r1(8) r2(9) by (simp_all add: allUnknown_def cd)
    moreover have "store1 = store"
      using \<open>structs1 = ?structs\<close>
      by (cases "clients store c") (simp_all add: store1_def structsOf_def map_upd_triv)
    ultimately show "tx' = tx \<and> store' = store" by simp
  qed
  show ?case using res r2(2,3,4,5) K D L U by blast
qed

lemma dsCovers_parkRange:
  "dsCovers (parkRange c state u clk n) c' k \<longleftrightarrow>
   dsCovers u c' k \<or> (c' = c \<and> clk \<le> k \<and> k < clk + n \<and> state \<le> k)"
  by (auto simp: parkRange_def dsCovers_addToDeleteSet createID_def)

lemma dsCovers_parkAll:
  "dsCovers (parkAll c state dsitems u) c' k \<longleftrightarrow>
   dsCovers u c' k \<or> (c' = c \<and> inRanges dsitems k \<and> state \<le> k)"
  unfolding parkAll_def
  by (induction dsitems arbitrary: u) (auto simp: dsCovers_parkRange inRanges_def)

lemma dsCovers_parkedRanges:
  "dsCovers (parkedRanges st ds u) c k \<longleftrightarrow> dsCovers u c k \<or> (dsCovers ds c k \<and> st c \<le> k)"
proof (induction ds arbitrary: u)
  case Nil
  then show ?case by (simp add: dsCovers_def)
next
  case (Cons cd ds)
  obtain c' dsitems where cd: "cd = (c', dsitems)" by (cases cd)
  show ?case unfolding cd parkedRanges.simps Cons.IH dsCovers_parkAll dsCovers_Cons by blast
qed

lemma writeDeleteSet_encode: "writeDeleteSet ds = length ds # encodeClients ds"
  by (simp add: writeDeleteSet_def encodeClients_def encodeRanges_def)

text \<open>
  Claim C4. Let the store satisfy its invariant (every client's array is non-empty,
  contiguous from clock 0 and owned by the client), and let the decoder hold an encoded
  delete set \<open>ds\<close>. Then \<open>readDeleteSet\<close> consumes exactly that encoding and succeeds, and for
  every range \<open>(client, clock, len)\<close> of \<open>ds\<close>, with \<open>s\<close> the state of the client:
  \<^item> the units of the range below \<open>s\<close> are deleted afterwards, and no other unit changes
    its deleted flag (so structs are split at the boundaries of the range); the state,
    the known units and the invariant are preserved;
  \<^item> exactly the units of the range that were known and not yet deleted are recorded in the
    delete set of the transaction (they are deleted through \<open>delete(transaction)\<close>);
  \<^item> the parked ranges cover exactly the units of the ranges at or after \<open>s\<close> (the whole
    range when \<open>clock \<ge> s\<close>, the suffix \<open>[s, clock + len)\<close> otherwise), and they are pushed
    on \<open>pendingDeleteReaders\<close> as one decoder holding their encoding, if there are any;
  \<^item> when every range lies at or after the state of its client, no struct is modified and
    the transaction is unchanged.
\<close>

theorem readDeleteSet_spec:
  assumes "storeOK store"
  shows "\<exists>tx' store'.
     readDeleteSet ts (writeDeleteSet ds @ rest) tx store = Inr (rest, tx', store') \<and>
     storeOK store' \<and> knownState store' = knownState store \<and>
     (\<forall>c k. unitKnown (structsOf store' c) k \<longleftrightarrow> unitKnown (structsOf store c) k) \<and>
     (\<forall>c k. unitDeleted (structsOf store' c) k \<longleftrightarrow>
        unitDeleted (structsOf store c) k \<or> (dsCovers ds c k \<and> k < knownState store c)) \<and>
     (\<forall>c k. dsCovers (deleteSet tx') c k \<longleftrightarrow>
        dsCovers (deleteSet tx) c k \<or> (dsCovers ds c k \<and> unitLive (structsOf store c) k)) \<and>
     pendingDeleteReaders store' =
        pendingDeleteReaders store @
        (if parkedRanges (knownState store) ds [] = [] then []
         else [writeDeleteSet (parkedRanges (knownState store) ds [])]) \<and>
     (\<forall>c k. dsCovers (parkedRanges (knownState store) ds []) c k \<longleftrightarrow>
        dsCovers ds c k \<and> knownState store c \<le> k) \<and>
     (allUnknown (knownState store) ds \<longrightarrow> tx' = tx \<and> clients store' = clients store)"
proof -
  let ?P = "parkedRanges (knownState store) ds []"
  obtain tx' store1 where r:
     "readDeleteSet_clients ts (length ds) (encodeClients ds @ rest) tx [] store =
       Inr (rest, tx', ?P, store1)"
     "storeOK store1" "knownState store1 = knownState store"
     "pendingDeleteReaders store1 = pendingDeleteReaders store"
     "\<And>c k. unitKnown (structsOf store1 c) k \<longleftrightarrow> unitKnown (structsOf store c) k"
     "\<And>c k. unitDeleted (structsOf store1 c) k \<longleftrightarrow>
        unitDeleted (structsOf store c) k \<or> (dsCovers ds c k \<and> k < knownState store c)"
     "\<And>c k. dsCovers (deleteSet tx') c k \<longleftrightarrow>
        dsCovers (deleteSet tx) c k \<or> (dsCovers ds c k \<and> unitLive (structsOf store c) k)"
     "allUnknown (knownState store) ds \<longrightarrow> tx' = tx \<and> store1 = store"
    using readDeleteSet_clients_spec[OF assms, of ts ds rest tx "[]"] by blast
  define store' where "store' =
     (if 0 < length ?P
      then store1\<lparr>pendingDeleteReaders := pendingDeleteReaders store1 @ [writeDeleteSet ?P]\<rparr>
      else store1)"
  have res: "readDeleteSet ts (writeDeleteSet ds @ rest) tx store = Inr (rest, tx', store')"
    using r(1) by (simp add: readDeleteSet_def writeDeleteSet_encode readVarUint_def store'_def)
  have cl: "clients store' = clients store1" by (simp add: store'_def)
  then have so: "structsOf store' = structsOf store1" "knownState store' = knownState store1"
    "storeOK store'"
    using r(2) by (auto simp: structsOf_def knownState_def storeOK_def fun_eq_iff)
  have pd: "pendingDeleteReaders store' =
        pendingDeleteReaders store @ (if ?P = [] then [] else [writeDeleteSet ?P])"
    using r(4) by (simp add: store'_def)
  have pk: "dsCovers ?P c k \<longleftrightarrow> dsCovers ds c k \<and> knownState store c \<le> k" for c k
    by (simp add: dsCovers_parkedRanges) (simp add: dsCovers_def)
  have U: "allUnknown (knownState store) ds \<longrightarrow> tx' = tx \<and> clients store' = clients store"
    using r(8) cl by simp
  show ?thesis
    using res so r(3) r(5) r(6) r(7) pd pk U by (intro exI[of _ tx'] exI[of _ store']) simp
qed

theorem readDeleteSet_spec_witness:
  "storeOK \<lparr>clients = [1 \<mapsto> [ItemString (createID 1 0)
       \<lparr>left = None, origin = None, right = None, rightOrigin = None, parent = 0,
        parentSub = None, deleted = False\<rparr> ''abcdefg'']], clientKeys = [1],
       pendingDeleteReaders = []\<rparr> \<and>
   (\<exists>tx' store'.
      readDeleteSet (\<lambda>t. \<lparr>tmap = Map.empty, titem = None, ancestors = []\<rparr>) [1, 1, 1, 5, 5]
        \<lparr>deleteSet = [], beforeState = [], afterState = [], changed = [],
         changedParentTypes = [], mergeStructs = [], torigin = None\<rparr>
        \<lparr>clients = [1 \<mapsto> [ItemString (createID 1 0)
          \<lparr>left = None, origin = None, right = None, rightOrigin = None, parent = 0,
           parentSub = None, deleted = False\<rparr> ''abcdefg'']], clientKeys = [1],
          pendingDeleteReaders = []\<rparr>
        = Inr ([], tx', store') \<and>
      pendingDeleteReaders store' = [[1, 1, 1, 7, 3]] \<and>
      unitDeleted (structsOf store' 1) 5 \<and> unitDeleted (structsOf store' 1) 6 \<and>
      \<not> unitDeleted (structsOf store' 1) 4 \<and> dsCovers (deleteSet tx') 1 5)"
proof -
  let ?S = "\<lparr>clients = [1 \<mapsto> [ItemString (createID 1 0)
       \<lparr>left = None, origin = None, right = None, rightOrigin = None, parent = 0,
        parentSub = None, deleted = False\<rparr> ''abcdefg'']], clientKeys = [1],
       pendingDeleteReaders = []\<rparr>"
  let ?tx = "\<lparr>deleteSet = [], beforeState = [], afterState = [], changed = [],
         changedParentTypes = [], mergeStructs = [], torigin = None\<rparr>"
  let ?ds = "[(1::nat, [mkDeleteItem 5 5])]"
  have h: "storeOK ?S"
    by (simp add: storeOK_def arrayOK_def contiguous_def integretyCheck_def sclock_def createID_def)
  have w: "writeDeleteSet ?ds @ [] = [1, 1, 1, 5, 5]"
    by (simp add: writeDeleteSet_def mkDeleteItem_def)
  have ks: "knownState ?S 1 = 7"
    by (simp add: knownState_def structsOf_def arrayState_def send_def sclock_def createID_def)
  have p: "parkedRanges (knownState ?S) ?ds [] = [(1, [mkDeleteItem 7 3])]"
    using ks by (simp add: parkAll_def parkRange_def mkDeleteItem_def addToDeleteSet_def createID_def)
  have pw: "writeDeleteSet [(1::nat, [mkDeleteItem 7 3])] = [1, 1, 1, 7, 3]"
    by (simp add: writeDeleteSet_def mkDeleteItem_def)
  have u: "unitLive (structsOf ?S 1) 5" "\<not> unitDeleted (structsOf ?S 1) 4"
    "dsCovers ?ds 1 5" "dsCovers ?ds 1 6" "\<not> dsCovers ?ds 1 4"
    by (simp_all add: structsOf_def unitLive_def unitDeleted_def dsCovers_def covers_def
        sclock_def createID_def mkDeleteItem_def)
  let ?ts = "\<lambda>t::nat. \<lparr>tmap = Map.empty, titem = None, ancestors = []\<rparr>"
  let ?P = "parkedRanges (knownState ?S) ?ds []"
  obtain tx' store' where r:
    "readDeleteSet ?ts (writeDeleteSet ?ds @ []) ?tx ?S = Inr ([], tx', store')"
    "\<And>c k. unitDeleted (structsOf store' c) k \<longleftrightarrow>
        unitDeleted (structsOf ?S c) k \<or> (dsCovers ?ds c k \<and> k < knownState ?S c)"
    "\<And>c k. dsCovers (deleteSet tx') c k \<longleftrightarrow>
        dsCovers (deleteSet ?tx) c k \<or> (dsCovers ?ds c k \<and> unitLive (structsOf ?S c) k)"
    "pendingDeleteReaders store' =
        pendingDeleteReaders ?S @ (if ?P = [] then [] else [writeDeleteSet ?P])"
    using readDeleteSet_spec[OF h, of ?ts ?ds "[]" ?tx] by blast
  have a: "pendingDeleteReaders store' = [[1, 1, 1, 7, 3]]"
    using r(4) unfolding p pw by simp
  have b: "unitDeleted (structsOf store' 1) 5" "unitDeleted (structsOf store' 1) 6"
    "\<not> unitDeleted (structsOf store' 1) 4"
    unfolding r(2) using u ks
    by (simp_all add: structsOf_def unitDeleted_def)
  have c: "dsCovers (deleteSet tx') 1 5" unfolding r(3) using u by simp
  have d: "readDeleteSet ?ts [1, 1, 1, 5, 5] ?tx ?S = Inr ([], tx', store')"
    using r(1) unfolding w .
  show ?thesis using h a b c d by blast
qed

section \<open>Applying a delete set a second time\<close>

lemma settled_iff:
  "settled structs clk e \<longleftrightarrow> (\<forall>s\<in>set structs. clk < send s \<and> sclock s < e \<longrightarrow> struct_deleted s)"
  by (simp add: settled_def list_all_iff)

lemma refines_iff:
  "refines structs' structs \<longleftrightarrow>
     (\<forall>x\<in>set structs'. struct_deleted x \<or>
        (\<exists>s\<in>set structs. \<not> struct_deleted s \<and> sclock s \<le> sclock x \<and> send x \<le> send s))"
  by (simp add: refines_def list_all_iff list_ex_iff)

lemma refines_refl: "refines structs structs"
  unfolding refines_iff by auto

lemma refines_trans: "refines c b \<Longrightarrow> refines b a \<Longrightarrow> refines c a"
  unfolding refines_iff by (meson le_trans)

lemma settled_refines: "settled structs clk e \<Longrightarrow> refines structs' structs \<Longrightarrow> settled structs' clk e"
  unfolding settled_iff refines_iff
proof (intro ballI impI)
  fix x assume a: "\<forall>s\<in>set structs. clk < send s \<and> sclock s < e \<longrightarrow> struct_deleted s"
    "\<forall>x\<in>set structs'. struct_deleted x \<or>
        (\<exists>s\<in>set structs. \<not> struct_deleted s \<and> sclock s \<le> sclock x \<and> send x \<le> send s)"
    "x \<in> set structs'" "clk < send x \<and> sclock x < e"
  show "struct_deleted x"
  proof (rule ccontr)
    assume "\<not> struct_deleted x"
    then obtain s where s: "s \<in> set structs" "\<not> struct_deleted s" "sclock s \<le> sclock x" "send x \<le> send s"
      using a(2,3) by blast
    then have "clk < send s \<and> sclock s < e" using a(4) by simp
    then show False using a(1) s(1,2) by blast
  qed
qed

lemma delSuffix_fixed:
  "(\<forall>x\<in>set suf. sclock x < e \<longrightarrow> struct_deleted x) \<Longrightarrow> delSuffix ts tx suf e = (tx, suf)"
  by (induction suf) auto

lemma delSuffix_swept:
  assumes "contiguous suf" "delSuffix ts tx suf e = (tx', suf')"
  shows "\<forall>x\<in>set suf'. sclock x < e \<longrightarrow> struct_deleted x"
  using assms
proof (induction suf arbitrary: tx tx' suf')
  case Nil then show ?case by simp
next
  case (Cons s rest)
  note cont = Cons.prems(1)
  have ctl: "contiguous rest" using cont by (rule contiguous_Cons_tail)
  have later: "x \<in> set rest \<Longrightarrow> send s \<le> sclock x" for x using contiguous_Cons_later[OF cont] .
  show ?case
  proof (cases "sclock s < e")
    case False
    then have r: "suf' = s # rest" using Cons.prems(2) by simp
    have "x \<in> set rest \<Longrightarrow> \<not> sclock x < e" for x using later[of x] False by (simp add: send_def)
    then show ?thesis unfolding r using False by auto
  next
    case lt: True
    show ?thesis
    proof (cases "struct_deleted s")
      case del: True
      obtain tx1 rest' where rec: "delSuffix ts tx rest e = (tx1, rest')"
        by (cases "delSuffix ts tx rest e")
      then have r: "suf' = s # rest'" using Cons.prems(2) lt del by simp
      show ?thesis unfolding r using Cons.IH[OF ctl rec] del by simp
    next
      case nd: False
      show ?thesis
      proof (cases "e < sclock s + struct_length s")
        case sp: True
        define d where "d = e - sclock s"
        have dle: "d \<le> struct_length s" "sclock s + d = e" using sp lt by (auto simp: d_def)
        obtain l r where lr: "splitAt s d = (l, r)" by (cases "splitAt s d")
        obtain tx1 l' where ds: "deleteStruct ts tx l = (tx1, l')" by (cases "deleteStruct ts tx l")
        have r: "suf' = l' # r # rest"
          using Cons.prems(2) lt nd sp lr ds by (simp add: d_def)
        have "sclock r = e" "send r = send s"
          using splitAt_props(4)[OF lr dle(1)] splitAt_clocks(3)[OF lr dle(1)] dle(2) by simp_all
        moreover have "x \<in> set rest \<Longrightarrow> \<not> sclock x < e" for x
          using later[of x] sp by (simp add: send_def)
        ultimately show ?thesis unfolding r using deleteStruct_props(3)[OF ds] by auto
      next
        case ns: False
        obtain tx1 s' where ds: "deleteStruct ts tx s = (tx1, s')" by (cases "deleteStruct ts tx s")
        obtain tx2 rest' where rec: "delSuffix ts tx1 rest e = (tx2, rest')"
          by (cases "delSuffix ts tx1 rest e")
        have r: "suf' = s' # rest'"
          using Cons.prems(2) lt nd ns ds rec by simp
        show ?thesis unfolding r using Cons.IH[OF ctl rec] deleteStruct_props(3)[OF ds] by simp
      qed
    qed
  qed
qed

lemma refines_Cons:
  "struct_deleted x \<or> (\<not> struct_deleted s \<and> sclock s \<le> sclock x \<and> send x \<le> send s) \<Longrightarrow>
   refines xs (s # rest) \<Longrightarrow> refines (x # xs) (s # rest)"
  unfolding refines_iff by auto

lemma refines_weaken: "refines xs rest \<Longrightarrow> refines xs (s # rest)"
  unfolding refines_iff by auto

lemma delSuffix_refines:
  assumes "delSuffix ts tx suf e = (tx', suf')"
  shows "refines suf' suf"
  using assms
proof (induction suf arbitrary: tx tx' suf')
  case Nil then show ?case by (simp add: refines_iff)
next
  case (Cons s rest)
  show ?case
  proof (cases "sclock s < e")
    case False
    then have "suf' = s # rest" using Cons.prems by simp
    then show ?thesis by (simp add: refines_refl)
  next
    case lt: True
    show ?thesis
    proof (cases "struct_deleted s")
      case del: True
      obtain tx1 rest' where rec: "delSuffix ts tx rest e = (tx1, rest')"
        by (cases "delSuffix ts tx rest e")
      then have r: "suf' = s # rest'" using Cons.prems lt del by simp
      show ?thesis unfolding r
        by (rule refines_Cons) (use refines_weaken[OF Cons.IH[OF rec], of s] del in simp_all)
    next
      case nd: False
      show ?thesis
      proof (cases "e < sclock s + struct_length s")
        case sp: True
        define d where "d = e - sclock s"
        have dle: "d \<le> struct_length s" "sclock s + d = e" using sp lt by (auto simp: d_def)
        obtain l r where lr: "splitAt s d = (l, r)" by (cases "splitAt s d")
        obtain tx1 l' where ds: "deleteStruct ts tx l = (tx1, l')" by (cases "deleteStruct ts tx l")
        have r: "suf' = l' # r # rest"
          using Cons.prems lt nd sp lr ds by (simp add: d_def)
        have pr: "sclock s \<le> sclock r" "send r \<le> send s"
          using splitAt_props(4)[OF lr dle(1)] splitAt_clocks(3)[OF lr dle(1)] by simp_all
        have rr: "refines (r # rest) (s # rest)"
          by (rule refines_Cons) (use pr nd refines_weaken[OF refines_refl, of rest s] in simp_all)
        show ?thesis unfolding r
          by (rule refines_Cons) (use deleteStruct_props(3)[OF ds] rr in simp_all)
      next
        case ns: False
        obtain tx1 s' where ds: "deleteStruct ts tx s = (tx1, s')" by (cases "deleteStruct ts tx s")
        obtain tx2 rest' where rec: "delSuffix ts tx1 rest e = (tx2, rest')"
          by (cases "delSuffix ts tx1 rest e")
        have r: "suf' = s' # rest'"
          using Cons.prems lt nd ns ds rec by simp
        show ?thesis unfolding r
          by (rule refines_Cons)
            (use refines_weaken[OF Cons.IH[OF rec], of s] deleteStruct_props(3)[OF ds] in simp_all)
      qed
    qed
  qed
qed

lemma refines_append: "refines xs S \<Longrightarrow> refines ys S \<Longrightarrow> refines (xs @ ys) S"
  unfolding refines_iff by auto

lemma refines_subset: "set xs \<subseteq> set S \<Longrightarrow> refines xs S"
  unfolding refines_iff by auto

lemma readDeleteSet_range_shape:
  assumes ok: "arrayOK c structs" and lt: "clk < arrayState structs"
  shows "\<exists>P S tx' suf'. contiguous (P @ S) \<and> (\<forall>x\<in>set P. send x \<le> clk) \<and>
     refines (P @ S) structs \<and> delSuffix ts tx S (clk + n) = (tx', suf') \<and>
     readDeleteSet_range ts tx u structs c (arrayState structs) clk n =
       Inr (tx', parkRange c (arrayState structs) u clk n, P @ suf')"
proof -
  let ?state = "arrayState structs" and ?e = "clk + n"
  have ne: "structs \<noteq> []" using lt by (auto simp: arrayState_def)
  have st: "?state = send (last structs)" using ne by (simp add: arrayState_def)
  have cont: "contiguous structs" and h0: "sclock (hd structs) = 0"
    using ok ne by (simp_all add: arrayOK_iff)
  obtain index where f: "findIndexSS structs clk = Inr index" "index < length structs"
    "covers (structs ! index) clk"
    using findIndexSS_inside[OF cont ne, of clk] h0 lt st by auto
  let ?s = "structs ! index" and ?A = "take index structs" and ?B = "drop (Suc index) structs"
  have dec: "structs = ?A @ ?s # ?B" using f(2) by (simp add: id_take_nth_drop[symmetric])
  have contd: "contiguous (?A @ ?s # ?B)" using cont dec by simp
  have belowA: "\<forall>x\<in>set ?A. send x \<le> sclock ?s"
  proof
    fix x assume "x \<in> set ?A"
    then obtain i where i: "i < index" "x = structs ! i"
      using f(2) by (auto simp: in_set_conv_nth)
    then show "send x \<le> sclock ?s" using contiguous_mono[OF cont f(2), of i] by simp
  qed
  have sub: "set ?A \<subseteq> set structs" "set ?B \<subseteq> set structs" "?s \<in> set structs"
    using f(2) by (auto dest: in_set_takeD in_set_dropD)
  show ?thesis
  proof (cases "\<not> struct_deleted ?s \<and> sclock ?s < clk")
    case True
    define d where "d = clk - sclock ?s"
    have dle: "d \<le> struct_length ?s" "sclock ?s + d = clk"
      using True f(3) by (auto simp: d_def covers_def)
    obtain l r where lr: "splitAt ?s d = (l, r)" by (cases "splitAt ?s d")
    note sc = splitAt_clocks[OF lr dle(1)] and sp = splitAt_props[OF lr dle(1)]
    let ?structs1 = "?A @ l # r # ?B"
    have s1: "splice_insert (index + 1) r (structs[index := l]) = ?structs1"
      using splice_insert_update[OF f(2)] by simp
    have c1: "contiguous ?structs1" using contd sc by (rule contiguous_split)
    have dr1: "drop (index + 1) ?structs1 = r # ?B" "take (index + 1) ?structs1 = ?A @ [l]"
      using f(2) by simp_all
    obtain tx' suf' where dsuf: "delSuffix ts tx (r # ?B) ?e = (tx', suf')"
      by (cases "delSuffix ts tx (r # ?B) ?e")
    have dl: "deleteLoop ts tx ?structs1 (index + 1) clk n = (tx', ?A @ l # suf')"
      using deleteLoop_delSuffix[of "index + 1" ?structs1 ts tx clk n] f(2) dsuf dr1 by simp
    have res: "readDeleteSet_range ts tx u structs c ?state clk n =
        Inr (tx', parkRange c ?state u clk n, (?A @ [l]) @ suf')"
      using lt f(1) True lr s1 dl
      by (simp add: readDeleteSet_range_def parkRange_def Let_def d_def)
    have sl: "send l = clk" using sc(2) sp(4) dle(2) by simp
    have p1: "\<forall>x\<in>set (?A @ [l]). send x \<le> clk"
      using belowA True sl by auto
    have piece: "\<not> struct_deleted ?s" "sclock ?s \<le> sclock l" "send l \<le> send ?s"
      "sclock ?s \<le> sclock r" "send r \<le> send ?s"
      using True sc sp(4) by (simp_all add: send_def)
    have "refines [l, r] structs"
      unfolding refines_iff using piece sub(3) by auto
    then have rf: "refines ((?A @ [l]) @ r # ?B) structs"
      using refines_subset[OF sub(1)] refines_subset[OF sub(2)]
        refines_append[of ?A structs "[l, r]"] refines_append[of "?A @ [l, r]" structs ?B]
      by simp
    have c1': "contiguous ((?A @ [l]) @ r # ?B)" using c1 by simp
    show ?thesis using c1' p1 rf dsuf res by blast
  next
    case False
    obtain tx' suf' where dsuf: "delSuffix ts tx (?s # ?B) ?e = (tx', suf')"
      by (cases "delSuffix ts tx (?s # ?B) ?e")
    have drp: "drop index structs = ?s # ?B" using f(2) by (simp add: Cons_nth_drop_Suc)
    have dl: "deleteLoop ts tx structs index clk n = (tx', ?A @ suf')"
      using deleteLoop_delSuffix[of index structs ts tx clk n] f(2) dsuf drp by simp
    have res: "readDeleteSet_range ts tx u structs c ?state clk n =
        Inr (tx', parkRange c ?state u clk n, ?A @ suf')"
      using lt f(1) False dl
      by (auto simp: readDeleteSet_range_def parkRange_def Let_def)
    have p1: "\<forall>x\<in>set ?A. send x \<le> clk"
      using belowA f(3) by (auto simp: covers_def)
    have rf: "refines (?A @ ?s # ?B) structs" using dec refines_refl[of structs] by simp
    show ?thesis using contd p1 rf dsuf res by blast
  qed
qed

lemma readDeleteSet_range_settles:
  assumes "arrayOK c structs" "clk < arrayState structs"
    "readDeleteSet_range ts tx u structs c (arrayState structs) clk n = Inr (tx', u', structs')"
  shows "settled structs' clk (clk + n)" "refines structs' structs"
proof -
  obtain P S tx1 suf' where sh: "contiguous (P @ S)" "\<forall>x\<in>set P. send x \<le> clk"
     "refines (P @ S) structs" "delSuffix ts tx S (clk + n) = (tx1, suf')"
     "readDeleteSet_range ts tx u structs c (arrayState structs) clk n =
       Inr (tx1, parkRange c (arrayState structs) u clk n, P @ suf')"
    using readDeleteSet_range_shape[OF assms(1,2), of ts tx n u] by blast
  have eq: "structs' = P @ suf'" using sh(5) assms(3) by simp
  have sw: "\<forall>x\<in>set suf'. sclock x < clk + n \<longrightarrow> struct_deleted x"
    using delSuffix_swept[OF contiguous_append_parts(2)[OF sh(1)] sh(4)] .
  show "settled structs' clk (clk + n)"
    unfolding eq settled_iff using sh(2) sw by auto
  have "refines (P @ suf') (P @ S)"
    using delSuffix_refines[OF sh(4)] unfolding refines_iff by auto
  then show "refines structs' structs" unfolding eq using sh(3) by (rule refines_trans)
qed

lemma readDeleteSet_range_fixed:
  assumes "arrayOK c structs" "clk < arrayState structs" "settled structs clk (clk + n)"
  shows "readDeleteSet_range ts tx u structs c (arrayState structs) clk n =
           Inr (tx, parkRange c (arrayState structs) u clk n, structs)"
proof -
  let ?state = "arrayState structs" and ?e = "clk + n"
  have ne: "structs \<noteq> []" using assms(2) by (auto simp: arrayState_def)
  have st: "?state = send (last structs)" using ne by (simp add: arrayState_def)
  have cont: "contiguous structs" and h0: "sclock (hd structs) = 0"
    using assms(1) ne by (simp_all add: arrayOK_iff)
  obtain index where f: "findIndexSS structs clk = Inr index" "index < length structs"
    "covers (structs ! index) clk"
    using findIndexSS_inside[OF cont ne, of clk] h0 assms(2) st by auto
  let ?s = "structs ! index"
  have sin: "?s \<in> set structs" using f(2) by simp
  have cs: "clk < send ?s" using f(3) by (simp add: covers_def send_def)
  have nosplit: "\<not> (\<not> struct_deleted ?s \<and> sclock ?s < clk)"
    using assms(3) sin cs unfolding settled_iff by fastforce
  have "\<forall>x\<in>set (drop index structs). sclock x < ?e \<longrightarrow> struct_deleted x"
  proof (intro ballI impI)
    fix x assume x: "x \<in> set (drop index structs)" "sclock x < ?e"
    then obtain j where j: "index \<le> j" "j < length structs" "x = structs ! j"
      by (auto simp: in_set_conv_nth) (metis add.commute le_add2 less_diff_conv)
    have "clk < send x"
    proof (cases "j = index")
      case True then show ?thesis using cs j by simp
    next
      case False
      then have "send ?s \<le> sclock x" using contiguous_mono[OF cont j(2), of index] j by simp
      then show ?thesis using cs by (simp add: send_def)
    qed
    moreover have "x \<in> set structs" using j by simp
    ultimately show "struct_deleted x" using assms(3) x(2) unfolding settled_iff by blast
  qed
  then have "delSuffix ts tx (drop index structs) ?e = (tx, drop index structs)"
    by (rule delSuffix_fixed)
  then have dl: "deleteLoop ts tx structs index clk n = (tx, structs)"
    using deleteLoop_delSuffix[of index structs ts tx clk n] f(2) by simp
  show ?thesis
    using assms(2) f(1) nosplit dl
    by (auto simp: readDeleteSet_range_def parkRange_def Let_def)
qed

lemma readDeleteSet_deletes_fixed:
  assumes "arrayOK c structs"
    "\<forall>d\<in>set dsitems. dclock d < arrayState structs \<longrightarrow>
        settled structs (dclock d) (dclock d + len d)"
  shows "readDeleteSet_deletes ts (length dsitems) (encodeRanges dsitems @ rest) tx u structs c
           (arrayState structs) =
         Inr (rest, tx, parkAll c (arrayState structs) dsitems u, structs)"
  using assms(2)
proof (induction dsitems arbitrary: u)
  case Nil
  then show ?case by (simp add: encodeRanges_def parkAll_def)
next
  case (Cons d dsitems)
  let ?st = "arrayState structs"
  have enc: "encodeRanges (d # dsitems) @ rest = dclock d # len d # encodeRanges dsitems @ rest"
    by (simp add: encodeRanges_def)
  have r: "readDeleteSet_range ts tx u structs c ?st (dclock d) (len d) =
      Inr (tx, parkRange c ?st u (dclock d) (len d), structs)"
  proof (cases "dclock d < ?st")
    case True
    then show ?thesis using readDeleteSet_range_fixed[OF assms(1) True] Cons.prems by simp
  next
    case False
    then show ?thesis using readDeleteSet_range_parked[of structs "dclock d"] by simp
  qed
  have "readDeleteSet_deletes ts (length dsitems) (encodeRanges dsitems @ rest) tx
           (parkRange c ?st u (dclock d) (len d)) structs c ?st =
         Inr (rest, tx, parkAll c ?st dsitems (parkRange c ?st u (dclock d) (len d)), structs)"
    using Cons.IH Cons.prems by simp
  then show ?case unfolding enc using r by (simp add: readVarUint_def parkAll_def)
qed

lemma readDeleteSet_deletes_settles:
  assumes "arrayOK c structs"
    "readDeleteSet_deletes ts (length dsitems) (encodeRanges dsitems @ rest) tx u structs c
           (arrayState structs) = Inr (rest', tx', u', structs')"
  shows "refines structs' structs \<and>
     (\<forall>d\<in>set dsitems. dclock d < arrayState structs \<longrightarrow>
        settled structs' (dclock d) (dclock d + len d))"
  using assms
proof (induction dsitems arbitrary: tx u structs)
  case Nil
  then show ?case by (simp add: encodeRanges_def refines_refl)
next
  case (Cons d dsitems)
  let ?st = "arrayState structs" and ?clk = "dclock d" and ?n = "len d"
  have enc: "encodeRanges (d # dsitems) @ rest = ?clk # ?n # encodeRanges dsitems @ rest"
    by (simp add: encodeRanges_def)
  obtain tx1 u1 structs1 where r1:
    "readDeleteSet_range ts tx u structs c ?st ?clk ?n = Inr (tx1, u1, structs1)"
    "arrayOK c structs1" "arrayState structs1 = ?st"
  proof (cases "?clk < ?st")
    case True
    then show ?thesis using readDeleteSet_range_applied[OF Cons.prems(1) True, of ts tx u ?n] that
      by blast
  next
    case False
    then show ?thesis using readDeleteSet_range_parked[of structs ?clk ts tx u c ?n] that Cons.prems(1)
      by simp
  qed
  have r2: "readDeleteSet_deletes ts (length dsitems) (encodeRanges dsitems @ rest) tx1 u1 structs1 c
           (arrayState structs1) = Inr (rest', tx', u', structs')"
    using Cons.prems(2) unfolding enc using r1(1,3) by (simp add: readVarUint_def)
  note IH = Cons.IH[OF r1(2) r2]
  have first: "refines structs1 structs"
    "?clk < ?st \<longrightarrow> settled structs1 ?clk (?clk + ?n)"
  proof -
    show "refines structs1 structs"
    proof (cases "?clk < ?st")
      case True
      show ?thesis using readDeleteSet_range_settles(2)[OF Cons.prems(1) True r1(1)] .
    next
      case False
      then have "structs1 = structs"
        using readDeleteSet_range_parked[of structs ?clk ts tx u c ?n] r1(1) by simp
      then show ?thesis by (simp add: refines_refl)
    qed
    show "?clk < ?st \<longrightarrow> settled structs1 ?clk (?clk + ?n)"
      using readDeleteSet_range_settles(1)[OF Cons.prems(1) _ r1(1)] by blast
  qed
  have a: "refines structs' structs" using IH first(1) refines_trans by blast
  have b: "?clk < ?st \<longrightarrow> settled structs' ?clk (?clk + ?n)"
    using first(2) IH settled_refines by blast
  show ?case using a b IH r1(3) by simp
qed

lemma writeBack_props:
  assumes "storeOK store" "arrayOK c structs1" "structs1 = [] \<longleftrightarrow> structsOf store c = []"
    "arrayState structs1 = knownState store c"
  defines "store1 \<equiv> (case clients store c of
        Some ss \<Rightarrow> store\<lparr>clients := (clients store)(c \<mapsto> structs1)\<rparr>
      | None \<Rightarrow> store)"
  shows "storeOK store1" "knownState store1 = knownState store" "structsOf store1 c = structs1"
    "\<And>c'. c' \<noteq> c \<Longrightarrow> structsOf store1 c' = structsOf store c'"
proof -
  show s1c: "structsOf store1 c = structs1"
  proof (cases "clients store c")
    case None
    then have "structsOf store c = []" by (simp add: structsOf_def)
    then show ?thesis using None assms(3) by (simp add: store1_def structsOf_def)
  next
    case (Some ss)
    then show ?thesis by (simp add: store1_def structsOf_def)
  qed
  show s1o: "structsOf store1 c' = structsOf store c'" if "c' \<noteq> c" for c'
    using that by (cases "clients store c") (simp_all add: store1_def structsOf_def)
  show "knownState store1 = knownState store"
  proof
    fix c' show "knownState store1 c' = knownState store c'"
      using s1c s1o[of c'] assms(4) by (cases "c' = c") (simp_all add: knownState_def)
  qed
  show "storeOK store1"
    unfolding storeOK_def
  proof
    fix c'
    show "case clients store1 c' of None \<Rightarrow> True | Some ss \<Rightarrow> ss \<noteq> [] \<and> arrayOK c' ss"
    proof (cases "clients store c")
      case None
      then show ?thesis using assms(1) by (simp add: store1_def storeOK_def)
    next
      case (Some ss)
      then have "structsOf store c = ss" "ss \<noteq> []"
        using storeOK_nonempty[OF assms(1) Some] by (simp_all add: structsOf_def)
      then have "structs1 \<noteq> []" using assms(3) by simp
      then show ?thesis
        using Some assms(1,2) by (cases "c' = c") (auto simp: store1_def storeOK_def)
    qed
  qed
qed

lemma settledAll_Cons:
  "settledAll store ((c, dsitems) # ds) \<longleftrightarrow>
     (\<forall>d\<in>set dsitems. dclock d < knownState store c \<longrightarrow>
         settled (structsOf store c) (dclock d) (dclock d + len d)) \<and> settledAll store ds"
  by (simp add: settledAll_def list_all_iff)

lemma settledAll_refines:
  assumes "settledAll store ds" "knownState store' = knownState store"
    "\<And>c. refines (structsOf store' c) (structsOf store c)"
  shows "settledAll store' ds"
  using assms(1) unfolding settledAll_def list_all_iff assms(2)
  using settled_refines[OF _ assms(3)] by fastforce

lemma readDeleteSet_clients_fixed:
  assumes "storeOK store" "settledAll store ds"
  shows "readDeleteSet_clients ts (length ds) (encodeClients ds @ rest) tx u store =
           Inr (rest, tx, parkedRanges (knownState store) ds u, store)"
  using assms(2)
proof (induction ds arbitrary: u)
  case Nil
  then show ?case by (simp add: encodeClients_def)
next
  case (Cons cd ds)
  obtain c dsitems where cd: "cd = (c, dsitems)" by (cases cd)
  let ?structs = "structsOf store c" and ?st = "knownState store c"
  have st: "?st = arrayState ?structs" by (simp add: knownState_def)
  have enc: "encodeClients (cd # ds) @ rest =
      c # length dsitems # encodeRanges dsitems @ (encodeClients ds @ rest)"
    by (simp add: encodeClients_def cd)
  have ok: "arrayOK c ?structs" using storeOK_array[OF assms(1)] .
  have sa: "\<forall>d\<in>set dsitems. dclock d < arrayState ?structs \<longrightarrow>
        settled ?structs (dclock d) (dclock d + len d)" "settledAll store ds"
    using Cons.prems unfolding cd settledAll_Cons st by simp_all
  have r1: "readDeleteSet_deletes ts (length dsitems) (encodeRanges dsitems @ (encodeClients ds @ rest))
         tx u ?structs c ?st =
       Inr (encodeClients ds @ rest, tx, parkAll c ?st dsitems u, ?structs)"
    unfolding st by (rule readDeleteSet_deletes_fixed[OF ok sa(1)])
  have same: "(case clients store c of
        Some ss \<Rightarrow> store\<lparr>clients := (clients store)
                      (c \<mapsto> (case clients store c of Some ss \<Rightarrow> ss | None \<Rightarrow> []))\<rparr>
      | None \<Rightarrow> store) = store"
    by (cases "clients store c") (simp_all add: map_upd_triv)
  have "readDeleteSet_clients ts (length (cd # ds)) (encodeClients (cd # ds) @ rest) tx u store =
      readDeleteSet_clients ts (length ds) (encodeClients ds @ rest) tx (parkAll c ?st dsitems u) store"
    unfolding enc using r1 storeOK_getState[OF assms(1), of c] same
    by (simp add: readVarUint_def cd structsOf_def Let_def)
  then show ?case using Cons.IH[OF sa(2), of "parkAll c ?st dsitems u"] by (simp add: cd)
qed

lemma readDeleteSet_clients_settles:
  assumes "storeOK store"
    "readDeleteSet_clients ts (length ds) (encodeClients ds @ rest) tx u store =
       Inr (rest', tx', u', store')"
  shows "(\<forall>c. refines (structsOf store' c) (structsOf store c)) \<and> settledAll store' ds"
  using assms
proof (induction ds arbitrary: tx u store)
  case Nil
  then show ?case by (simp add: encodeClients_def refines_refl settledAll_def)
next
  case (Cons cd ds)
  obtain c dsitems where cd: "cd = (c, dsitems)" by (cases cd)
  let ?structs = "structsOf store c" and ?st = "knownState store c"
  have st: "?st = arrayState ?structs" by (simp add: knownState_def)
  have enc: "encodeClients (cd # ds) @ rest =
      c # length dsitems # encodeRanges dsitems @ (encodeClients ds @ rest)"
    by (simp add: encodeClients_def cd)
  have ok: "arrayOK c ?structs" using storeOK_array[OF Cons.prems(1)] .
  obtain tx1 structs1 where r1:
     "readDeleteSet_deletes ts (length dsitems) (encodeRanges dsitems @ (encodeClients ds @ rest))
         tx u ?structs c (arrayState ?structs) =
       Inr (encodeClients ds @ rest, tx1, parkAll c (arrayState ?structs) dsitems u, structs1)"
     "arrayOK c structs1" "structs1 = [] \<longleftrightarrow> ?structs = []"
     "arrayState structs1 = arrayState ?structs"
    using readDeleteSet_deletes_spec[OF ok, of ts dsitems "encodeClients ds @ rest" tx u]
    by blast
  define store1 where "store1 = (case clients store c of
        Some ss \<Rightarrow> store\<lparr>clients := (clients store)(c \<mapsto> structs1)\<rparr>
      | None \<Rightarrow> store)"
  note wb = writeBack_props[OF Cons.prems(1) r1(2) r1(3) r1(4)[folded st], folded store1_def]
  have r2: "readDeleteSet_clients ts (length ds) (encodeClients ds @ rest) tx1
         (parkAll c ?st dsitems u) store1 = Inr (rest', tx', u', store')"
    using Cons.prems(2) unfolding enc
    using r1(1) storeOK_getState[OF Cons.prems(1), of c]
    by (simp add: readVarUint_def cd store1_def structsOf_def Let_def knownState_def)
  note IH = Cons.IH[OF wb(1) r2]
  have IHr: "refines (structsOf store' c') (structsOf store1 c')" for c' using IH by blast
  have ks': "knownState store' = knownState store1"
    using readDeleteSet_clients_spec[OF wb(1), of ts ds rest tx1 "parkAll c ?st dsitems u"] r2
    by auto
  note ds1 = readDeleteSet_deletes_settles[OF ok r1(1)]
  have rf: "refines (structsOf store' c') (structsOf store c')" for c'
  proof (cases "c' = c")
    case True
    then show ?thesis using IHr[of c] ds1 wb(3) refines_trans by metis
  next
    case False
    then show ?thesis using IHr[of c'] wb(4)[of c'] by simp
  qed
  have "\<forall>d\<in>set dsitems. dclock d < knownState store' c \<longrightarrow>
         settled (structsOf store' c) (dclock d) (dclock d + len d)"
  proof (intro ballI impI)
    fix d assume d: "d \<in> set dsitems" "dclock d < knownState store' c"
    then have "settled structs1 (dclock d) (dclock d + len d)"
      using ds1 ks' wb(2) st by simp
    moreover have "refines (structsOf store' c) structs1" using IHr[of c] wb(3) by simp
    ultimately show "settled (structsOf store' c) (dclock d) (dclock d + len d)"
      by (rule settled_refines)
  qed
  then have "settledAll store' (cd # ds)" unfolding cd settledAll_Cons using IH by simp
  then show ?case using rf by simp
qed

section \<open>Applying an update message a second time\<close>

lemma pendRefs_simps [simp]:
  "pendRefs [] = {}" "pendRefs ((c, refs) # pend) = set refs \<union> pendRefs pend"
  by (auto simp: pendRefs_def)

lemma takePending_refs:
  "takePending c pend = Some (r, pend') \<Longrightarrow> pendRefs pend = insert r (pendRefs pend')"
  by (induction c pend arbitrary: pend' rule: takePending.induct)
     (auto split: if_splits list.splits option.splits)

lemma contiguous_map:
  assumes "\<And>x. sclock (g x) = sclock x" "\<And>x. struct_length (g x) = struct_length x"
  shows "contiguous (map g ss) = contiguous ss"
proof -
  have "integretyCheckFrom (g l) (map g rest) = integretyCheckFrom l rest" for l rest
    by (induction rest arbitrary: l) (simp_all add: assms)
  then show ?thesis by (cases ss) (simp_all add: contiguous_def integretyCheck_def)
qed

lemma updateItem_props:
  assumes "storeOK store"
  shows "storeOK (updateItem store j f)" "knownState (updateItem store j f) = knownState store"
    "clientKeys (updateItem store j f) = clientKeys store"
    "pendingDeleteReaders (updateItem store j f) = pendingDeleteReaders store"
    "(clients (updateItem store j f) c = None) = (clients store c = None)"
proof -
  let ?g = "\<lambda>x. case x of
                ItemString xi xit xs \<Rightarrow> if Some xi = j then ItemString xi (f xit) xs else x
              | GC xi n \<Rightarrow> x"
  have g: "sclock (?g x) = sclock x" "struct_length (?g x) = struct_length x"
    "struct_id (?g x) = struct_id x" for x
    by (cases x; simp add: sclock_def)+
  have ok: "arrayOK c (map ?g ss) = arrayOK c ss" for c ss
    unfolding arrayOK_def using contiguous_map[of ?g ss, OF g(1,2)]
    by (cases ss) (simp_all add: list_all_iff g)
  have st: "arrayState (map ?g ss) = arrayState ss" for ss
    by (simp add: arrayState_def send_def g last_map)
  show "storeOK (updateItem store j f)"
  proof (cases j)
    case None then show ?thesis using assms by (simp add: updateItem_def)
  next
    case (Some i)
    show ?thesis
    proof (cases "clients store (client i)")
      case None then show ?thesis using assms Some by (simp add: updateItem_def)
    next
      case (Some ss)
      have e: "(\<lambda>x. case x of
                ItemString xi xit xs \<Rightarrow> if xi = i then ItemString xi (f xit) xs else x
              | GC xi n \<Rightarrow> x) = ?g" using \<open>j = Some i\<close> by (auto simp: fun_eq_iff split: AbstractStruct.splits)
      show ?thesis using assms Some \<open>j = Some i\<close> ok[of "client i" ss]
        unfolding storeOK_def updateItem_def by (auto simp: e split: option.splits)
    qed
  qed
  show "knownState (updateItem store j f) = knownState store"
  proof (cases j)
    case None then show ?thesis by (simp add: updateItem_def)
  next
    case (Some i)
    have e: "(\<lambda>x. case x of
                ItemString xi xit xs \<Rightarrow> if xi = i then ItemString xi (f xit) xs else x
              | GC xi n \<Rightarrow> x) = ?g" using Some by (auto simp: fun_eq_iff split: AbstractStruct.splits)
    show ?thesis using Some st
      by (auto simp: updateItem_def knownState_def structsOf_def fun_eq_iff e split: option.splits)
  qed
  show "clientKeys (updateItem store j f) = clientKeys store"
    "pendingDeleteReaders (updateItem store j f) = pendingDeleteReaders store"
    "(clients (updateItem store j f) c = None) = (clients store c = None)"
    by (auto simp: updateItem_def split: option.splits)
qed

lemma contiguous_snoc:
  "ss \<noteq> [] \<Longrightarrow> contiguous (ss @ [s]) = (contiguous ss \<and> send (last ss) = sclock s)"
  unfolding contiguous_successively
  by (induction ss rule: induct_list012) (auto simp: send_def)

lemma addStruct_props:
  assumes "storeOK store" "sclock s = knownState store (client (struct_id s))"
  shows "\<exists>store'. addStruct store s = Inr store' \<and> storeOK store' \<and>
     knownState store' = (knownState store)(client (struct_id s) := send s) \<and>
     pendingDeleteReaders store' = pendingDeleteReaders store"
proof (cases "clients store (client (struct_id s))")
  case None
  then have z: "sclock s = 0" using assms(2) by (simp add: knownState_def structsOf_def arrayState_def)
  let ?store' = "store\<lparr>clients := (clients store)(client (struct_id s) \<mapsto> [s]),
                            clientKeys := clientKeys store @ [client (struct_id s)]\<rparr>"
  have "addStruct store s = Inr ?store'" using None by (simp add: addStruct_def)
  moreover have "storeOK ?store'" using assms(1) z
    unfolding storeOK_def by (auto simp: arrayOK_def contiguous_def integretyCheck_def)
  moreover have "knownState ?store' = (knownState store)(client (struct_id s) := send s)"
    by (auto simp: knownState_def structsOf_def arrayState_def fun_eq_iff)
  ultimately show ?thesis by simp
next
  case (Some ss)
  have ne: "ss \<noteq> []" using storeOK_nonempty[OF assms(1) Some] .
  have ok: "arrayOK (client (struct_id s)) ss" using storeOK_array[OF assms(1), of "client (struct_id s)"] Some
    by (simp add: structsOf_def)
  have e: "send (last ss) = sclock s" using assms(2) Some ne
    by (simp add: knownState_def structsOf_def arrayState_def)
  let ?store' = "store\<lparr>clients := (clients store)(client (struct_id s) \<mapsto> ss @ [s])\<rparr>"
  have "addStruct store s = Inr ?store'" using Some ne e by (simp add: addStruct_def send_def)
  moreover have "contiguous (ss @ [s])" using ok ne e by (simp add: contiguous_snoc arrayOK_def)
  then have "arrayOK (client (struct_id s)) (ss @ [s])"
    using ok ne unfolding arrayOK_def by (cases ss) simp_all
  then have "storeOK ?store'" using assms(1) unfolding storeOK_def by auto
  moreover have "knownState ?store' = (knownState store)(client (struct_id s) := send s)"
    by (auto simp: knownState_def structsOf_def arrayState_def fun_eq_iff)
  ultimately show ?thesis by simp
qed

lemma integrate_props:
  assumes "storeOK store" "sclock s = knownState store (client (struct_id s))"
    "integrate rs ts tx store s = Inr (ts', tx', store')"
  shows "storeOK store' \<and> knownState store' = (knownState store)(client (struct_id s) := send s)"
proof (cases s)
  case (GC i n)
  then show ?thesis
    using addStruct_props[OF assms(1,2)] assms(3) by (auto split: sum.splits)
next
  case (ItemString i it str)
  obtain l r where cr: "conflictResolution rs ts store i it = (l, r)"
    by (cases "conflictResolution rs ts store i it")
  let ?store1 = "updateItem (updateItem store l (\<lambda>x. x\<lparr>right := Some i\<rparr>)) r (\<lambda>x. x\<lparr>left := Some i\<rparr>)"
  let ?s' = "ItemString i (it\<lparr>left := l, right := r\<rparr>) str"
  have ok1: "storeOK ?store1" and ks1: "knownState ?store1 = knownState store"
    using updateItem_props(1,2)[OF updateItem_props(1)[OF assms(1)]] updateItem_props(2)[OF assms(1)]
    by simp_all
  have c: "sclock ?s' = knownState ?store1 (client (struct_id ?s'))"
    using assms(2) ItemString ks1 by (simp add: sclock_def)
  have a: "addStruct ?store1 ?s' = Inr store'"
    using assms(3) ItemString cr by (simp add: Let_def split: sum.splits)
  have "send ?s' = send s" "struct_id ?s' = struct_id s" using ItemString by (simp_all add: send_def sclock_def)
  then show ?thesis
    using addStruct_props[OF ok1 c] a ks1 by auto
qed

lemma toStruct_props:
  "struct_id (toStruct rs ts tx store r offset) =
     createID (client (ref_id r)) (clock (ref_id r) + offset)"
  "struct_length (toStruct rs ts tx store r offset) = ref_length r - offset"
  by (auto simp: toStruct_def Let_def changeItemRefOffset_def ref_length_def createID_def
           split: prod.splits option.splits)



lemma known_mono:
  "known store r \<Longrightarrow> \<forall>c. knownState store c \<le> knownState store' c \<Longrightarrow> known store' r"
  unfolding known_def by (meson le_trans)

lemma resumeStep_inv:
  assumes "storeOK (r_store st)" "resumeStep rs st = Inr (b, st')"
  shows "storeOK (r_store st') \<and> (\<forall>c. knownState (r_store st) c \<le> knownState (r_store st') c) \<and>
         (\<forall>r \<in> refsOf st. r \<in> refsOf st' \<or> known (r_store st') r)"
proof (cases "pendingStack st")
  case Nil
  then show ?thesis using assms
    by (auto simp: resumeStep_def refsOf_def split: list.splits if_splits)
next
  case (Cons r stack)
  let ?store = "r_store st" and ?c = "client (ref_id r)"
  let ?state = "knownState ?store ?c"
  have gs: "getState ?store ?c = Inr ?state" using storeOK_getState[OF assms(1)] .
  have rf: "refsOf st = pendRefs (pendingClientsStructRefs st) \<union> insert r (set stack)"
    using Cons by (simp add: refsOf_def)
  show ?thesis
  proof (cases "?state < clock (ref_id r)")
    case True
    then have "st' = st" using assms(2) Cons gs by (simp add: resumeStep_def)
    then show ?thesis using assms(1) by simp
  next
    case ngap: False
    show ?thesis
    proof (cases "ref_length r \<le> ?state - clock (ref_id r)")
      case True
      then have st': "st' = st\<lparr>pendingStack := stack\<rparr>"
        using assms(2) Cons gs ngap by (simp add: resumeStep_def)
      have "known ?store r" using True ngap by (simp add: known_def)
      then show ?thesis using assms(1) unfolding st' rf by (auto simp: refsOf_def)
    next
      case nskip: False
      show ?thesis
      proof (cases "firstMissing ?store [ref_left r, ref_right r, ref_parent r]")
        case (Inl e)
        then show ?thesis using assms(2) Cons gs ngap nskip by (simp add: resumeStep_def)
      next
        case (Inr m)
        show ?thesis
        proof (cases m)
          case (Some d)
          show ?thesis
          proof (cases "takePending (client d) (pendingClientsStructRefs st)")
            case None
            then have "st' = st" using assms(2) Cons gs ngap nskip Inr Some
              by (simp add: resumeStep_def)
            then show ?thesis using assms(1) by simp
          next
            case tp: (Some a)
            obtain r' pend' where a: "a = (r', pend')" by (cases a)
            have st': "st' = st\<lparr>pendingClientsStructRefs := pend', pendingStack := r' # r # stack\<rparr>"
              using assms(2) Cons gs ngap nskip Inr Some tp a by (simp add: resumeStep_def)
            show ?thesis using assms(1) takePending_refs[OF tp[unfolded a]] unfolding st' rf
              by (auto simp: refsOf_def)
          qed
        next
          case None
          let ?s = "toStruct rs (r_types st) (r_transaction st) ?store r (?state - clock (ref_id r))"
          obtain ts' tx' store' where ig:
            "integrate rs (r_types st) (r_transaction st) ?store ?s = Inr (ts', tx', store')"
            and st': "st' = st\<lparr>r_types := ts', r_transaction := tx', r_store := store',
                                         pendingStack := stack\<rparr>"
            using assms(2) Cons gs ngap nskip Inr None
            by (auto simp: resumeStep_def split: sum.splits)
          have id: "struct_id ?s = createID ?c ?state" using toStruct_props(1)[of rs _ _ _ r] ngap by simp
          then have cl: "client (struct_id ?s) = ?c" "sclock ?s = ?state"
            by (simp_all add: createID_def sclock_def)
          have sd: "send ?s = clock (ref_id r) + ref_length r"
            using cl(2) toStruct_props(2)[of rs _ _ _ r] ngap nskip by (simp add: send_def)
          have ip: "storeOK store'" "knownState store' = (knownState ?store)(?c := send ?s)"
            using integrate_props[OF assms(1) _ ig] cl by simp_all
          have mono: "\<forall>c. knownState ?store c \<le> knownState store' c"
            using ip(2) sd ngap nskip by simp
          have "known store' r" using ip(2) sd by (simp add: known_def)
          then show ?thesis using ip(1) mono unfolding st' rf by (auto simp: refsOf_def)
        qed
      qed
    qed
  qed
qed

lemma tryResumePendingStructRefs_inv:
  assumes "storeOK (r_store st)" "tryResumePendingStructRefs rs st = Inr st'"
  shows "storeOK (r_store st') \<and> (\<forall>c. knownState (r_store st) c \<le> knownState (r_store st') c) \<and>
         (\<forall>r \<in> refsOf st. r \<in> refsOf st' \<or> known (r_store st') r)"
  using assms
proof (induction "pendingSize st" arbitrary: st rule: less_induct)
  case less
  obtain b st1 where step: "resumeStep rs st = Inr (b, st1)"
    using less.prems(2) by (subst (asm) tryResumePendingStructRefs.simps) (auto split: sum.splits)
  note inv = resumeStep_inv[OF less.prems(1) step]
  show ?case
  proof (cases b)
    case False
    then have "st' = st1" using less.prems(2) step
      by (subst (asm) tryResumePendingStructRefs.simps) simp
    then show ?thesis using inv by simp
  next
    case True
    then have r: "tryResumePendingStructRefs rs st1 = Inr st'" using less.prems(2) step
      by (subst (asm) tryResumePendingStructRefs.simps) simp
    have lt: "pendingSize st1 < pendingSize st" using resumeStep_size step True by simp
    have ih: "storeOK (r_store st') \<and> (\<forall>c. knownState (r_store st1) c \<le> knownState (r_store st') c) \<and>
         (\<forall>r \<in> refsOf st1. r \<in> refsOf st' \<or> known (r_store st') r)"
      using less.hyps[OF lt _ r] inv by simp
    have "\<forall>c. knownState (r_store st) c \<le> knownState (r_store st') c"
      using inv ih by (meson le_trans)
    moreover have "\<forall>r \<in> refsOf st. r \<in> refsOf st' \<or> known (r_store st') r"
      using inv ih known_mono by blast
    ultimately show ?thesis using ih by simp
  qed
qed

lemma resumeStep_known:
  assumes "storeOK (r_store st)" "\<forall>r \<in> refsOf st. known (r_store st) r"
  shows "\<exists>b p s. resumeStep rs st = Inr (b, st\<lparr>pendingClientsStructRefs := p, pendingStack := s\<rparr>) \<and>
           pendRefs p \<union> set s \<subseteq> refsOf st \<and> (\<not> b \<longrightarrow> p = [] \<and> s = [])"
proof (cases "pendingStack st")
  case Nil
  show ?thesis
  proof (cases "pendingClientsStructRefs st")
    case pn: Nil
    have "st\<lparr>pendingClientsStructRefs := [], pendingStack := []\<rparr> = st"
      using Nil pn by simp
    then have "resumeStep rs st = Inr (False, st\<lparr>pendingClientsStructRefs := [], pendingStack := []\<rparr>)"
      using Nil pn by (simp add: resumeStep_def)
    then show ?thesis by auto
  next
    case (Cons cr pend)
    obtain c refs where cr: "cr = (c, refs)" by (cases cr)
    show ?thesis
    proof (cases refs)
      case rn: Nil
      have "st\<lparr>pendingClientsStructRefs := pend, pendingStack := []\<rparr> = st\<lparr>pendingClientsStructRefs := pend\<rparr>"
        using Nil by simp
      then have "resumeStep rs st = Inr (True, st\<lparr>pendingClientsStructRefs := pend, pendingStack := []\<rparr>)"
        using Nil Cons cr rn by (simp add: resumeStep_def)
      moreover have "pendRefs pend \<union> set [] \<subseteq> refsOf st" using Cons cr by (auto simp: refsOf_def)
      ultimately show ?thesis by blast
    next
      case (Cons r refs')
      let ?p = "if refs' = [] then pend else (c, refs') # pend"
      have "resumeStep rs st = Inr (True, st\<lparr>pendingClientsStructRefs := ?p, pendingStack := [r]\<rparr>)"
        using Nil \<open>pendingClientsStructRefs st = cr # pend\<close> cr Cons by (simp add: resumeStep_def)
      moreover have "pendRefs ?p \<union> set [r] \<subseteq> refsOf st"
        using \<open>pendingClientsStructRefs st = cr # pend\<close> cr Cons by (auto simp: refsOf_def)
      ultimately show ?thesis by blast
    qed
  qed
next
  case (Cons r stack)
  let ?store = "r_store st" and ?c = "client (ref_id r)"
  let ?state = "knownState ?store ?c"
  have gs: "getState ?store ?c = Inr ?state" using storeOK_getState[OF assms(1)] .
  have "known ?store r" using assms(2) Cons by (simp add: refsOf_def)
  then have k: "\<not> ?state < clock (ref_id r)" "ref_length r \<le> ?state - clock (ref_id r)"
    by (simp_all add: known_def)
  have "st\<lparr>pendingClientsStructRefs := pendingClientsStructRefs st, pendingStack := stack\<rparr> =
        st\<lparr>pendingStack := stack\<rparr>" by simp
  then have "resumeStep rs st =
      Inr (True, st\<lparr>pendingClientsStructRefs := pendingClientsStructRefs st, pendingStack := stack\<rparr>)"
    using Cons gs k by (simp add: resumeStep_def)
  moreover have "pendRefs (pendingClientsStructRefs st) \<union> set stack \<subseteq> refsOf st"
    using Cons by (auto simp: refsOf_def)
  ultimately show ?thesis by blast
qed

lemma tryResumePendingStructRefs_known:
  assumes "storeOK (r_store st)" "\<forall>r \<in> refsOf st. known (r_store st) r"
  shows "tryResumePendingStructRefs rs st =
           Inr (st\<lparr>pendingClientsStructRefs := [], pendingStack := []\<rparr>)"
  using assms
proof (induction "pendingSize st" arbitrary: st rule: less_induct)
  case less
  obtain b p s where step:
    "resumeStep rs st = Inr (b, st\<lparr>pendingClientsStructRefs := p, pendingStack := s\<rparr>)"
    "pendRefs p \<union> set s \<subseteq> refsOf st" "\<not> b \<longrightarrow> p = [] \<and> s = []"
    using resumeStep_known[OF less.prems, of rs] by blast
  let ?st1 = "st\<lparr>pendingClientsStructRefs := p, pendingStack := s\<rparr>"
  show ?case
  proof (cases b)
    case False
    then show ?thesis using step by (subst tryResumePendingStructRefs.simps) simp
  next
    case True
    have lt: "pendingSize ?st1 < pendingSize st" using resumeStep_size step(1) True by simp
    have ok: "storeOK (r_store ?st1)" using less.prems(1) by simp
    have kn: "\<forall>r \<in> refsOf ?st1. known (r_store ?st1) r"
      using less.prems(2) step(2) by (auto simp: refsOf_def)
    have "tryResumePendingStructRefs rs ?st1 =
        Inr (?st1\<lparr>pendingClientsStructRefs := [], pendingStack := []\<rparr>)"
      using less.hyps[OF lt ok kn] .
    then show ?thesis using step(1) True by (subst tryResumePendingStructRefs.simps) simp
  qed
qed

lemma pendRefs_updateOrInsert:
  "pendRefs (updateOrInsert c [] (\<lambda>old. old @ refs) p) = pendRefs p \<union> set refs"
proof (induction p)
  case Nil
  then show ?case by simp
next
  case (Cons a p)
  obtain c' xs where a: "a = (c', xs)" by (cases a)
  show ?case using Cons by (auto simp: a)
qed

lemma pendRefs_readStructs:
  "pendRefs (readStructs structSection pend) = pendRefs pend \<union> pendRefs structSection"
  unfolding readStructs_def
proof (induction structSection arbitrary: pend)
  case Nil
  then show ?case by simp
next
  case (Cons cr rest)
  obtain c refs where cr: "cr = (c, refs)" by (cases cr)
  show ?case using Cons[of "updateOrInsert c [] (\<lambda>old. old @ refs) pend"]
    by (auto simp: cr pendRefs_updateOrInsert)
qed


lemma readDeleteSet_first:
  assumes "storeOK store"
    "readDeleteSet ts (writeDeleteSet ds @ rest) tx store = Inr (rest1, tx1, store1)"
  shows "rest1 = rest \<and> storeOK store1 \<and> knownState store1 = knownState store \<and>
         settledAll store1 ds"
proof -
  let ?P = "parkedRanges (knownState store) ds []"
  obtain tx0 store0 where r:
     "readDeleteSet_clients ts (length ds) (encodeClients ds @ rest) tx [] store =
       Inr (rest, tx0, ?P, store0)"
     "storeOK store0" "knownState store0 = knownState store"
    using readDeleteSet_clients_spec[OF assms(1), of ts ds rest tx "[]"] by blast
  have s1: "rest1 = rest" "clients store1 = clients store0"
    using assms(2) r(1)
    by (auto simp: readDeleteSet_def writeDeleteSet_encode readVarUint_def split: if_splits)
  then have so: "structsOf store1 = structsOf store0" "knownState store1 = knownState store0"
    "storeOK store1"
    using r(2) by (auto simp: structsOf_def knownState_def storeOK_def fun_eq_iff)
  have "settledAll store0 ds" using readDeleteSet_clients_settles[OF assms(1) r(1)] by simp
  then have "settledAll store1 ds" by (simp add: settledAll_def so)
  then show ?thesis using s1(1) so r(3) by simp
qed

lemma readDeleteSet_settled:
  assumes "storeOK store" "settledAll store ds"
  shows "readDeleteSet ts (writeDeleteSet ds @ rest) tx store =
       Inr (rest, tx,
            if 0 < length (parkedRanges (knownState store) ds [])
            then store\<lparr>pendingDeleteReaders := pendingDeleteReaders store @
                   [writeDeleteSet (parkedRanges (knownState store) ds [])]\<rparr>
            else store)"
  using readDeleteSet_clients_fixed[OF assms, of ts rest tx "[]"]
  by (simp add: readDeleteSet_def writeDeleteSet_encode readVarUint_def)

lemma getStateVector_clients:
  "clients s = clients s' \<Longrightarrow> clientKeys s = clientKeys s' \<Longrightarrow> getStateVector s = getStateVector s'"
proof -
  assume a: "clients s = clients s'" "clientKeys s = clientKeys s'"
  have "getStateVector_keys s ks = getStateVector_keys s' ks" for ks
    by (induction ks) (auto simp: a(1) split: option.splits)
  then show ?thesis by (simp add: getStateVector_def a(2))
qed

lemma applyUpdate_first:
  assumes "storeOK (r_store st)"
    and "applyUpdate rs st structSection (writeDeleteSet ds @ rest) = Inr (rest1, st1)"
    and "pendingClientsStructRefs st1 = []" and "pendingStack st1 = []"
  shows "storeOK (r_store st1) \<and> (\<forall>r \<in> pendRefs structSection. known (r_store st1) r) \<and>
         settledAll (r_store st1) ds"
proof -
  let ?dec = "writeDeleteSet ds @ rest"
  let ?st0 = "st\<lparr>pendingClientsStructRefs := readStructs structSection (pendingClientsStructRefs st)\<rparr>"
  obtain stA tx1 store1 where a:
    "tryResumePendingStructRefs rs ?st0 = Inr stA"
    "readDeleteSet (r_types stA) ?dec (r_transaction stA) (r_store stA) = Inr (rest1, tx1, store1)"
    "st1 = stA\<lparr>r_transaction := tx1, r_store := store1\<rparr>"
    using assms(2) by (auto simp: applyUpdate_def split: sum.splits)
  have inv: "storeOK (r_store stA)"
    "\<forall>r \<in> refsOf ?st0. r \<in> refsOf stA \<or> known (r_store stA) r"
    using tryResumePendingStructRefs_inv[OF _ a(1)] assms(1) by simp_all
  have "refsOf stA = {}" using assms(3,4) a(3) by (simp add: refsOf_def)
  moreover have "pendRefs structSection \<subseteq> refsOf ?st0"
    by (auto simp: refsOf_def pendRefs_readStructs)
  ultimately have kA: "\<forall>r \<in> pendRefs structSection. known (r_store stA) r" using inv(2) by blast
  have f: "storeOK store1" "knownState store1 = knownState (r_store stA)" "settledAll store1 ds"
    using readDeleteSet_first[OF inv(1) a(2)] by simp_all
  have s1: "r_store st1 = store1" using a(3) by simp
  have "\<forall>r \<in> pendRefs structSection. known store1 r" using kA f(2) by (simp add: known_def)
  then show ?thesis using f s1 by simp
qed

lemma applyUpdate_fixed:
  assumes "storeOK (r_store st)" "\<forall>r \<in> pendRefs structSection. known (r_store st) r"
    and "settledAll (r_store st) ds"
    and "pendingClientsStructRefs st = []" and "pendingStack st = []"
  shows "\<exists>st2.
     applyUpdate rs st structSection (writeDeleteSet ds @ rest) = Inr (rest, st2) \<and>
     clients (r_store st2) = clients (r_store st) \<and>
     clientKeys (r_store st2) = clientKeys (r_store st) \<and>
     getStateVector (r_store st2) = getStateVector (r_store st) \<and>
     r_types st2 = r_types st \<and> r_transaction st2 = r_transaction st \<and>
     pendingClientsStructRefs st2 = [] \<and> pendingStack st2 = []"
proof -
  let ?dec = "writeDeleteSet ds @ rest" and ?store = "r_store st"
  let ?str = "st\<lparr>pendingClientsStructRefs := readStructs structSection (pendingClientsStructRefs st)\<rparr>"
  have rf: "refsOf ?str = pendRefs structSection"
    using assms(4,5) by (simp add: refsOf_def pendRefs_readStructs)
  have "tryResumePendingStructRefs rs ?str =
      Inr (?str\<lparr>pendingClientsStructRefs := [], pendingStack := []\<rparr>)"
    by (rule tryResumePendingStructRefs_known) (use assms(1,2) rf in simp_all)
  moreover have "?str\<lparr>pendingClientsStructRefs := [], pendingStack := []\<rparr> = st"
    using assms(4,5) by simp
  ultimately have t2: "tryResumePendingStructRefs rs ?str = Inr st" by simp
  let ?store2 = "if 0 < length (parkedRanges (knownState ?store) ds [])
            then ?store\<lparr>pendingDeleteReaders := pendingDeleteReaders ?store @
                   [writeDeleteSet (parkedRanges (knownState ?store) ds [])]\<rparr>
            else ?store"
  have d2: "readDeleteSet (r_types st) ?dec (r_transaction st) ?store =
      Inr (rest, r_transaction st, ?store2)"
    using readDeleteSet_settled[OF assms(1,3)] .
  have "applyUpdate rs st structSection ?dec =
      Inr (rest, st\<lparr>r_transaction := r_transaction st, r_store := ?store2\<rparr>)"
    unfolding applyUpdate_def using t2 d2 by simp
  moreover have "clients ?store2 = clients ?store" "clientKeys ?store2 = clientKeys ?store"
    by simp_all
  moreover from this have "getStateVector ?store2 = getStateVector ?store"
    by (rule getStateVector_clients)
  ultimately show ?thesis using assms(4,5) by simp
qed



section \<open>The cleanup of a transaction between two applications of an update\<close>

text \<open>
  An update is applied inside a transaction, whose cleanup replaces deleted items and
  merges structs before the update can be applied again. These passes keep the
  invariant of the store, the state of every client and the settled ranges
  (\<open>cleanupStore_keeps\<close>). So the second application changes nothing either when it
  meets the store as the cleanup of the first transaction left it
  (\<open>applyUpdate_after_cleanup\<close>); and the cleanup of a transaction in which nothing
  was deleted and no state advanced leaves the store and the types as they are
  (\<open>cleanupStore_nothing\<close>).
\<close>

lemma keepsArray_refl: "keepsArray S S"
  by (simp add: keepsArray_def)

lemma keepsArray_trans: "keepsArray S S' \<Longrightarrow> keepsArray S' S'' \<Longrightarrow> keepsArray S S''"
  unfolding keepsArray_def by auto

lemma keepsArray_merge:
  assumes "mergeWith l r = Some m" "struct_deleted l = struct_deleted r"
  shows "keepsArray (A @ l # r # B) (A @ m # B)"
proof -
  note mp = mergeWith_props[OF assms(1)] and mc = mergeWith_clocks[OF assms(1)]
  have ok: "arrayOK c (A @ m # B)" if h: "arrayOK c (A @ l # r # B)" for c
  proof -
    have "contiguous (A @ m # B)" using contiguous_merge[OF _ mc] h by (simp add: arrayOK_def)
    moreover have "list_all (\<lambda>s. client (struct_id s) = c) (A @ m # B)"
      using h mp(1) by (simp add: arrayOK_def)
    moreover have "(case A @ m # B of [] \<Rightarrow> True | s # rest \<Rightarrow> sclock s = 0)"
      using h mc(1) by (cases A) (simp_all add: arrayOK_def)
    ultimately show ?thesis by (simp add: arrayOK_def)
  qed
  have st: "arrayState (A @ m # B) = arrayState (A @ l # r # B)"
    using mc(2) by (simp add: arrayState_def)
  have se: "settled (A @ m # B) clk e" if h: "clk < e" "settled (A @ l # r # B) clk e" for clk e
  proof -
    have "struct_deleted m" if o: "clk < send m" "sclock m < e"
    proof (rule ccontr)
      assume "\<not> struct_deleted m"
      then have nd: "\<not> struct_deleted l" "\<not> struct_deleted r" using mp(5) assms(2) by simp_all
      have "\<not> (clk < send l \<and> sclock l < e)" "\<not> (clk < send r \<and> sclock r < e)"
        using h(2) nd by (auto simp: settled_def)
      then show False using o mc mp(3) h(1) by auto
    qed
    then show ?thesis using h(2) by (auto simp: settled_def)
  qed
  show ?thesis unfolding keepsArray_def using ok st se by simp
qed

lemma tryToMergeWithLeft_keeps:
  assumes "tryToMergeWithLeft ts structs pos = Inr (structs', ts')"
  shows "keepsArray structs structs'"
proof (cases "pos = 0 \<or> length structs \<le> pos")
  case True
  then show ?thesis using assms by (simp add: tryToMergeWithLeft_def)
next
  case False
  then have p: "0 < pos" "pos < length structs" by simp_all
  let ?l = "structs ! (pos - 1)" and ?r = "structs ! pos"
  show ?thesis
  proof (cases "struct_deleted ?l = struct_deleted ?r \<and> isGC ?l = isGC ?r")
    case c: True
    show ?thesis
    proof (cases "mergeWith ?l ?r")
      case None
      then have "structs' = structs" using assms False c by (simp add: tryToMergeWithLeft_def Let_def)
      then show ?thesis by (simp add: keepsArray_refl)
    next
      case (Some m)
      have "structs' = take pos (structs[pos - 1 := m]) @ drop (pos + 1) structs"
        using assms False c Some by (simp add: tryToMergeWithLeft_def Let_def)
      then have s': "structs' = take (pos - 1) structs @ m # drop (Suc pos) structs"
        using splice_remove(1)[OF p] by simp
      have s: "structs = take (pos - 1) structs @ ?l # ?r # drop (Suc pos) structs"
        using splice_remove(2)[OF p] .
      show ?thesis using keepsArray_merge[OF Some, of "take (pos - 1) structs" "drop (Suc pos) structs"] c s s'
        by simp
    qed
  next
    case False
    then have "structs' = structs" using assms p by (auto simp: tryToMergeWithLeft_def Let_def)
    then show ?thesis by (simp add: keepsArray_refl)
  qed
qed

lemma mergeDownWhile_keeps:
  "mergeDownWhile ts structs si clk = ((structs', ts'), eo) \<Longrightarrow> keepsArray structs structs'"
proof (induction ts structs si clk rule: mergeDownWhile.induct)
  case (1 ts structs clk)
  then show ?case by (simp add: keepsArray_refl)
next
  case (2 ts structs si clk)
  show ?case
  proof (cases "length structs \<le> Suc si \<or> \<not> clk \<le> sclock (structs ! Suc si)")
    case True
    then have "structs' = structs" using "2.prems" by (auto split: if_splits)
    then show ?thesis by (simp add: keepsArray_refl)
  next
    case False
    show ?thesis
    proof (cases "tryToMergeWithLeft ts structs (Suc si)")
      case (Inl e)
      then have "structs' = structs" using "2.prems" False by simp
      then show ?thesis by (simp add: keepsArray_refl)
    next
      case (Inr a)
      obtain s1 t1 where a: "a = (s1, t1)" by (cases a)
      have "mergeDownWhile t1 s1 si clk = ((structs', ts'), eo)"
        using "2.prems" False Inr a by simp
      then have "keepsArray s1 structs'" using "2.IH" False Inr a by simp
      then show ?thesis using tryToMergeWithLeft_keeps[OF Inr[unfolded a]] keepsArray_trans by blast
    qed
  qed
qed

lemma mergeRanges_keeps:
  "mergeRanges ts structs dis = ((structs', ts'), eo) \<Longrightarrow> keepsArray structs structs'"
proof (induction ts structs dis rule: mergeRanges.induct)
  case (1 ts structs)
  then show ?case by (simp add: keepsArray_refl)
next
  case (2 ts structs deleteItem others)
  show ?case
  proof (cases "dclock deleteItem + len deleteItem = 0")
    case True
    then show ?thesis using "2.prems" by (simp add: keepsArray_refl)
  next
    case nz: False
    have eq: "mergeRanges ts structs (deleteItem # others) =
        (case findIndexSS structs (dclock deleteItem + len deleteItem - 1) of
           Inl e \<Rightarrow> ((structs, ts), Some e)
         | Inr ix \<Rightarrow>
             (case mergeDownWhile ts structs (min (length structs - 1) (1 + ix))
                     (dclock deleteItem) of
                (r, Some e) \<Rightarrow> (r, Some e)
              | ((structs', ts'), None) \<Rightarrow> mergeRanges ts' structs' others))"
      by (simp only: mergeRanges.simps nz if_False)
    show ?thesis
    proof (cases "findIndexSS structs (dclock deleteItem + len deleteItem - 1)")
      case (Inl e)
      then have "structs' = structs" using "2.prems" unfolding eq by (simp only: sum.case prod.inject)
      then show ?thesis by (simp add: keepsArray_refl)
    next
      case (Inr ix)
      obtain s1 t1 e1 where m: "mergeDownWhile ts structs (min (length structs - 1) (1 + ix))
                     (dclock deleteItem) = ((s1, t1), e1)"
        by (metis surj_pair)
      note k1 = mergeDownWhile_keeps[OF m]
      show ?thesis
      proof (cases e1)
        case None
        have "mergeRanges t1 s1 others = ((structs', ts'), eo)"
          using "2.prems" unfolding eq by (simp only: Inr m None sum.case prod.case option.case)
        then have "keepsArray s1 structs'" using "2.IH"[OF nz Inr _ _ None] m None by simp
        then show ?thesis using k1 keepsArray_trans by blast
      next
        case (Some e)
        then have "structs' = s1" using "2.prems" unfolding eq
          by (simp only: Inr m sum.case prod.case option.case prod.inject)
        then show ?thesis using k1 by simp
      qed
    qed
  qed
qed

lemma mergeDownTo_keeps:
  "mergeDownTo ts structs i firstChangePos = ((structs', ts'), eo) \<Longrightarrow> keepsArray structs structs'"
proof (induction ts structs i firstChangePos rule: mergeDownTo.induct)
  case (1 ts structs firstChangePos)
  then show ?case by (simp add: keepsArray_refl)
next
  case (2 ts structs i firstChangePos)
  show ?case
  proof (cases "firstChangePos \<le> i")
    case False
    then show ?thesis using "2.prems" by (simp add: keepsArray_refl)
  next
    case True
    show ?thesis
    proof (cases "tryToMergeWithLeft ts structs i")
      case (Inl e)
      then show ?thesis using "2.prems" True by (simp add: keepsArray_refl)
    next
      case (Inr a)
      obtain s1 t1 where a: "a = (s1, t1)" by (cases a)
      have "mergeDownTo t1 s1 i firstChangePos = ((structs', ts'), eo)"
        using "2.prems" True Inr a by simp
      then have "keepsArray s1 structs'" using "2.IH" True Inr a by simp
      then show ?thesis using tryToMergeWithLeft_keeps[OF Inr[unfolded a]] keepsArray_trans by blast
    qed
  qed
qed



lemma keepsArray_replace:
  assumes "struct_id g = struct_id x" "struct_length g = struct_length x"
    "struct_deleted x \<longrightarrow> struct_deleted g"
  shows "keepsArray (A @ x # B) (A @ g # B)"
proof -
  have c: "sclock g = sclock x" "send g = send x" using assms(1,2) by (simp_all add: sclock_def send_def)
  have ok: "arrayOK c' (A @ g # B)" if h: "arrayOK c' (A @ x # B)" for c'
  proof -
    have "contiguous (A @ g # B)" using h c
      by (cases B) (auto simp: arrayOK_def contiguous_successively successively_append_iff)
    moreover have "list_all (\<lambda>s. client (struct_id s) = c') (A @ g # B)"
      using h assms(1) by (simp add: arrayOK_def)
    moreover have "(case A @ g # B of [] \<Rightarrow> True | s # rest \<Rightarrow> sclock s = 0)"
      using h c(1) by (cases A) (simp_all add: arrayOK_def)
    ultimately show ?thesis by (simp add: arrayOK_def)
  qed
  have st: "arrayState (A @ g # B) = arrayState (A @ x # B)"
    using c(2) by (simp add: arrayState_def)
  have se: "settled (A @ g # B) clk e" if "settled (A @ x # B) clk e" for clk e
    using that c assms(3) by (auto simp: settled_def)
  show ?thesis unfolding keepsArray_def using ok st se by simp
qed

lemma keepsArray_update:
  assumes "si < length S" "struct_id g = struct_id (S ! si)"
    "struct_length g = struct_length (S ! si)" "struct_deleted (S ! si) \<longrightarrow> struct_deleted g"
  shows "keepsArray S (S[si := g])"
proof -
  have s: "S = take si S @ S ! si # drop (Suc si) S"
    using assms(1) by (simp add: id_take_nth_drop[symmetric])
  have s': "S[si := g] = take si S @ g # drop (Suc si) S"
    using assms(1) by (simp add: upd_conv_take_nth_drop)
  show ?thesis
    using keepsArray_replace[OF assms(2-4), of "take si S" "drop (Suc si) S"] s s' by simp
qed

lemma gcLoop_keeps:
  assumes "gcKeepsInterval env"
  shows "keepsArray structs (gcLoop env structs si e)"
  using assms
proof (induction env structs si e rule: gcLoop.induct)
  case (1 env structs si e)
  show ?case
  proof (cases "si < length structs \<and> sclock (structs ! si) < e")
    case False
    then show ?thesis by (subst gcLoop.simps) (auto simp: keepsArray_refl)
  next
    case True
    let ?s = "structs ! si"
    let ?S1 = "if struct_deleted ?s \<and> \<not> isGC ?s then structs[si := gcReplace env ?s] else structs"
    have ne: "\<not> e \<le> sclock ?s" using True by simp
    have g: "gcLoop env structs si e = gcLoop env ?S1 (si + 1) e"
      using True by (subst gcLoop.simps) (simp add: Let_def)
    have k1: "keepsArray structs ?S1"
    proof (cases "struct_deleted ?s \<and> \<not> isGC ?s")
      case False
      then show ?thesis by (auto simp: keepsArray_refl)
    next
      case t: True
      have "keepsArray structs (structs[si := gcReplace env ?s])"
        using True t "1.prems" by (intro keepsArray_update) (auto simp: gcKeepsInterval_def)
      then show ?thesis using t by simp
    qed
    have "keepsArray ?S1 (gcLoop env ?S1 (si + 1) e)"
      using "1.IH"[OF True refl ne "1.prems"] .
    then show ?thesis unfolding g using k1 keepsArray_trans by blast
  qed
qed

lemma gcRanges_keeps:
  assumes "gcKeepsInterval env"
  shows "gcRanges env structs dis = (structs', eo) \<Longrightarrow> keepsArray structs structs'"
proof (induction dis arbitrary: structs)
  case Nil
  then show ?case by (simp add: keepsArray_refl)
next
  case (Cons d dis)
  show ?case
  proof (cases "findIndexSS structs (dclock d)")
    case (Inl e)
    then show ?thesis using Cons.prems by (simp add: keepsArray_refl)
  next
    case (Inr si)
    have "gcRanges env (gcLoop env structs si (dclock d + len d)) dis = (structs', eo)"
      using Cons.prems Inr by simp
    then show ?thesis using Cons.IH gcLoop_keeps[OF assms] keepsArray_trans by blast
  qed
qed

lemma keepsStore_refl: "keepsStore st st"
  by (simp add: keepsStore_def keepsArray_refl)

lemma keepsStore_trans: "keepsStore a b \<Longrightarrow> keepsStore b c \<Longrightarrow> keepsStore a c"
  unfolding keepsStore_def using keepsArray_trans by blast

lemma keepsStore_setStructs:
  assumes "clients st c = Some S" "keepsArray S S'"
  shows "keepsStore st (setStructs st c S')"
  unfolding keepsStore_def setStructs_def using assms
  by (auto simp: structsOf_def keepsArray_refl)

lemma gcPass_keeps:
  assumes "gcKeepsInterval env"
  shows "gcPass env st ds = (st', eo) \<Longrightarrow> keepsStore st st'"
proof (induction ds arbitrary: st)
  case Nil
  then show ?case by (simp add: keepsStore_refl)
next
  case (Cons cd ds)
  obtain c deleteItems where cd: "cd = (c, deleteItems)" by (cases cd)
  show ?case
  proof (cases "clients st c")
    case None
    then show ?thesis using Cons cd by (auto simp: keepsStore_refl split: if_splits)
  next
    case (Some structs)
    obtain s1 e1 where g: "gcRanges env structs (rev deleteItems) = (s1, e1)" by (metis surj_pair)
    note k1 = keepsStore_setStructs[OF Some gcRanges_keeps[OF assms g]]
    show ?thesis
    proof (cases e1)
      case None
      then have "gcPass env (setStructs st c s1) ds = (st', eo)" using Cons.prems cd Some g by simp
      then show ?thesis using Cons.IH k1 keepsStore_trans by blast
    next
      case (Some e)
      then have "st' = setStructs st c s1" using Cons.prems cd \<open>clients st c = Some structs\<close> g by simp
      then show ?thesis using k1 by simp
    qed
  qed
qed

lemma mergePass1_keeps:
  "mergePass1 st ts ds = ((st', ts'), eo) \<Longrightarrow> keepsStore st st'"
proof (induction ds arbitrary: st ts)
  case Nil
  then show ?case by (simp add: keepsStore_refl)
next
  case (Cons cd ds)
  obtain c deleteItems where cd: "cd = (c, deleteItems)" by (cases cd)
  show ?case
  proof (cases "clients st c")
    case None
    then show ?thesis using Cons cd by (auto simp: keepsStore_refl split: if_splits)
  next
    case (Some structs)
    obtain s1 t1 e1 where g: "mergeRanges ts structs (rev deleteItems) = ((s1, t1), e1)"
      by (metis surj_pair)
    note k1 = keepsStore_setStructs[OF Some mergeRanges_keeps[OF g]]
    show ?thesis
    proof (cases e1)
      case None
      then have "mergePass1 (setStructs st c s1) t1 ds = ((st', ts'), eo)"
        using Cons.prems cd Some g by simp
      then show ?thesis using Cons.IH k1 keepsStore_trans by blast
    next
      case (Some e)
      then have "st' = setStructs st c s1" using Cons.prems cd \<open>clients st c = Some structs\<close> g by simp
      then show ?thesis using k1 by simp
    qed
  qed
qed

lemma mergePass2_keeps:
  "mergePass2 bstate st ts astate = ((st', ts'), eo) \<Longrightarrow> keepsStore st st'"
proof (induction astate arbitrary: st ts)
  case Nil
  then show ?case by (simp add: keepsStore_refl)
next
  case (Cons cc astate)
  obtain c clk where cc: "cc = (c, clk)" by (cases cc)
  let ?b = "case map_of bstate c of Some b \<Rightarrow> b | None \<Rightarrow> 0"
  show ?case
  proof (cases "?b \<noteq> clk")
    case False
    then have "mergePass2 bstate st ts astate = ((st', ts'), eo)" using Cons.prems cc by simp
    then show ?thesis using Cons.IH by blast
  next
    case True
    show ?thesis
    proof (cases "clients st c")
      case None
      then show ?thesis using Cons.prems cc True by (simp add: keepsStore_refl)
    next
      case (Some structs)
      show ?thesis
      proof (cases "findIndexSS structs ?b")
        case (Inl e)
        then show ?thesis using Cons.prems cc True Some by (simp add: keepsStore_refl)
      next
        case (Inr ix)
        obtain s1 t1 e1 where g: "mergeDownTo ts structs (length structs) (max ix 1) = ((s1, t1), e1)"
          by (metis surj_pair)
        note k1 = keepsStore_setStructs[OF Some mergeDownTo_keeps[OF g]]
        show ?thesis
        proof (cases e1)
          case None
          then have "mergePass2 bstate (setStructs st c s1) t1 astate = ((st', ts'), eo)"
            using Cons.prems cc True Some Inr g by simp
          then show ?thesis using Cons.IH k1 keepsStore_trans by blast
        next
          case (Some e)
          then have "st' = setStructs st c s1"
            using Cons.prems cc True \<open>clients st c = Some structs\<close> Inr g by simp
          then show ?thesis using k1 by simp
        qed
      qed
    qed
  qed
qed


lemma mergePass3_keeps:
  "mergePass3 st ts mids = ((st', ts'), eo) \<Longrightarrow> keepsStore st st'"
proof (induction mids arbitrary: st ts)
  case Nil
  then show ?case by (simp add: keepsStore_refl)
next
  case (Cons mid mids)
  let ?c = "client mid"
  show ?case
  proof (cases "clients st ?c")
    case None
    then show ?thesis using Cons.prems by (simp add: keepsStore_refl)
  next
    case (Some structs)
    show ?thesis
    proof (cases "findIndexSS structs (clock mid)")
      case (Inl e)
      then show ?thesis using Cons.prems Some by (simp add: keepsStore_refl)
    next
      case (Inr pos)
      let ?m1 = "if pos + 1 < length structs then tryToMergeWithLeft ts structs (pos + 1)
                 else Inr (structs, ts)"
      show ?thesis
      proof (cases ?m1)
        case m1l: (Inl e)
        then have "st' = st" using Cons.prems Some Inr by (simp split: if_splits)
        then show ?thesis by (simp add: keepsStore_refl)
      next
        case m1r: (Inr a)
        obtain s1 t1 where a: "a = (s1, t1)" by (cases a)
        have k1: "keepsArray structs s1"
          using m1r a tryToMergeWithLeft_keeps[of ts structs "pos + 1" s1 t1]
          by (auto simp: keepsArray_refl split: if_splits)
        let ?m2 = "if 0 < pos then tryToMergeWithLeft t1 s1 pos else Inr (s1, t1)"
        have unf: "mergePass3 st ts (mid # mids) =
            (case ?m2 of
               Inl e \<Rightarrow> ((setStructs st ?c s1, t1), Some e)
             | Inr (structs2, ts2) \<Rightarrow> mergePass3 (setStructs st ?c structs2) ts2 mids)"
          using Some Inr m1r a by simp
        show ?thesis
        proof (cases ?m2)
          case m2l: (Inl e)
          then have "st' = setStructs st ?c s1" using Cons.prems unfolding unf by simp
          then show ?thesis using keepsStore_setStructs[OF Some k1] by simp
        next
          case m2r: (Inr b)
          obtain s2 t2 where b: "b = (s2, t2)" by (cases b)
          have "keepsArray s1 s2"
            using m2r b tryToMergeWithLeft_keeps[of t1 s1 pos s2 t2]
            by (auto simp: keepsArray_refl split: if_splits)
          then have k2: "keepsStore st (setStructs st ?c s2)"
            using keepsStore_setStructs[OF Some] k1 keepsArray_trans by blast
          have "mergePass3 (setStructs st ?c s2) t2 mids = ((st', ts'), eo)"
            using Cons.prems unfolding unf using m2r b by simp
          then show ?thesis using Cons.IH k2 keepsStore_trans by blast
        qed
      qed
    qed
  qed
qed

lemma cleanupStore_keeps:
  assumes "gcKeepsInterval env" "cleanupStore env t d = (d', x)"
  shows "keepsStore (d_store d) (d_store d')"
proof -
  let ?tx = "d_heap d ! t"
  obtain st1 e1 where p0: "gcPass env (d_store d) (deleteSet ?tx) = (st1, e1)" by (metis surj_pair)
  note k0 = gcPass_keeps[OF assms(1) p0]
  show ?thesis
  proof (cases e1)
    case (Some e)
    then have "d_store d' = st1" using assms(2) p0 by (auto simp: cleanupStore_def Let_def)
    then show ?thesis using k0 by simp
  next
    case n0: None
    obtain st2 ts2 e2 where p1: "mergePass1 st1 (d_share d) (deleteSet ?tx) = ((st2, ts2), e2)"
      by (metis surj_pair)
    have k1: "keepsStore (d_store d) st2" using k0 mergePass1_keeps[OF p1] keepsStore_trans by blast
    show ?thesis
    proof (cases e2)
      case (Some e)
      then have "d_store d' = st2" using assms(2) p0 n0 p1 by (auto simp: cleanupStore_def Let_def)
      then show ?thesis using k1 by simp
    next
      case n1: None
      obtain st3 ts3 e3 where p2:
        "mergePass2 (beforeState ?tx) st2 ts2 (afterState ?tx) = ((st3, ts3), e3)"
        by (metis surj_pair)
      have k2: "keepsStore (d_store d) st3" using k1 mergePass2_keeps[OF p2] keepsStore_trans by blast
      show ?thesis
      proof (cases e3)
        case (Some e)
        then have "d_store d' = st3" using assms(2) p0 n0 p1 n1 p2
          by (auto simp: cleanupStore_def Let_def)
        then show ?thesis using k2 by simp
      next
        case n2: None
        obtain st4 ts4 e4 where p3: "mergePass3 st3 ts3 (mergeStructs ?tx) = ((st4, ts4), e4)"
          by (metis surj_pair)
        have "d_store d' = st4" using assms(2) p0 n0 p1 n1 p2 n2 p3
          by (auto simp: cleanupStore_def Let_def)
        then show ?thesis using k2 mergePass3_keeps[OF p3] keepsStore_trans by blast
      qed
    qed
  qed
qed

lemma keepsStore_props:
  assumes "keepsStore st st'" "storeOK st"
  shows "storeOK st'" "knownState st' = knownState st"
    "nonEmptyRanges ds \<Longrightarrow> settledAll st ds \<Longrightarrow> settledAll st' ds"
proof -
  have ka: "keepsArray (structsOf st c) (structsOf st' c)"
    and nn: "clients st' c = None \<longleftrightarrow> clients st c = None" for c
    using assms(1) by (simp_all add: keepsStore_def)
  show "storeOK st'" unfolding storeOK_def
  proof
    fix c
    show "case clients st' c of None \<Rightarrow> True | Some ss \<Rightarrow> ss \<noteq> [] \<and> arrayOK c ss"
    proof (cases "clients st' c")
      case None then show ?thesis by simp
    next
      case (Some ss')
      then obtain ss where ss: "clients st c = Some ss" using nn[of c] by auto
      have "ss \<noteq> []" "arrayOK c ss" using assms(2) ss unfolding storeOK_def by (auto dest: spec[of _ c])
      then show ?thesis using ka[of c] ss Some by (simp add: structsOf_def keepsArray_def)
    qed
  qed
  show ks: "knownState st' = knownState st"
    using ka by (auto simp: knownState_def keepsArray_def fun_eq_iff)
  show "settledAll st' ds" if "nonEmptyRanges ds" "settledAll st ds"
    using that ka unfolding settledAll_def nonEmptyRanges_def ks keepsArray_def list_all_iff
    by fastforce
qed

lemma mergePass2_same:
  assumes "\<forall>(c, clk) \<in> set astate. map_of bstate c = Some clk"
  shows "mergePass2 bstate st ts astate = ((st, ts), None)"
  using assms by (induction astate) auto

lemma getStateVector_keys_entries:
  "getStateVector_keys st ks = Inr sv \<Longrightarrow> \<forall>(c, clk) \<in> set sv. clk = knownState st c \<and> clients st c \<noteq> None"
proof (induction ks arbitrary: sv)
  case Nil
  then show ?case by simp
next
  case (Cons c ks)
  show ?case
  proof (cases "clients st c")
    case None
    then show ?thesis using Cons by simp
  next
    case (Some structs)
    then obtain sm where sm: "getStateVector_keys st ks = Inr sm" "structs \<noteq> []"
      "sv = (c, sclock (last structs) + struct_length (last structs)) # sm"
      using Cons.prems by (auto split: if_splits sum.splits)
    have "sclock (last structs) + struct_length (last structs) = knownState st c"
      using Some sm(2) by (simp add: knownState_def structsOf_def arrayState_def send_def)
    then show ?thesis using Cons.IH[OF sm(1)] sm(3) Some by auto
  qed
qed

lemma map_of_consistent:
  assumes "\<forall>(c, v) \<in> set sv. v = f c" "(c, clk) \<in> set sv"
  shows "map_of sv c = Some clk"
proof -
  obtain v where v: "map_of sv c = Some v" using weak_map_of_SomeI[OF assms(2)] by blast
  then have "(c, v) \<in> set sv" by (rule map_of_SomeD)
  then have "v = f c" "clk = f c" using assms by blast+
  then show ?thesis using v by simp
qed

lemma cleanupStore_nothing:
  assumes "getStateVector (d_store d) = Inr sv"
    and "deleteSet (d_heap d ! t) = []" and "mergeStructs (d_heap d ! t) = []"
    and "beforeState (d_heap d ! t) = sv" and "afterState (d_heap d ! t) = sv"
  shows "cleanupStore env t d = (d, None)"
proof -
  have "\<forall>(c, clk) \<in> set sv. clk = knownState (d_store d) c"
    using getStateVector_keys_entries[OF assms(1)[unfolded getStateVector_def]] by auto
  then have "\<forall>(c, clk) \<in> set sv. map_of sv c = Some clk"
    using map_of_consistent[of sv "knownState (d_store d)"] by auto
  then have "mergePass2 sv (d_store d) (d_share d) sv = ((d_store d, d_share d), None)"
    by (rule mergePass2_same)
  then show ?thesis using assms(2-5) by (simp add: cleanupStore_def internal_def)
qed

lemma applyUpdate_after_cleanup:
  assumes "storeOK (r_store st)"
    and "applyUpdate rs st structSection (writeDeleteSet ds @ rest) = Inr (rest1, st1)"
    and "pendingClientsStructRefs st1 = []" and "pendingStack st1 = []"
    and "nonEmptyRanges ds" and "gcKeepsInterval env"
    and "d_store d = r_store st1" and "cleanupStore env t d = (d', x)"
  shows "\<exists>st2.
     applyUpdate rs (st1\<lparr>r_types := ts', r_transaction := tx', r_store := d_store d'\<rparr>)
       structSection (writeDeleteSet ds @ rest) = Inr (rest, st2) \<and>
     clients (r_store st2) = clients (d_store d') \<and>
     clientKeys (r_store st2) = clientKeys (d_store d') \<and>
     getStateVector (r_store st2) = getStateVector (d_store d') \<and>
     r_types st2 = ts' \<and> r_transaction st2 = tx' \<and>
     pendingClientsStructRefs st2 = [] \<and> pendingStack st2 = []"
proof -
  note f = applyUpdate_first[OF assms(1-4)]
  have k: "keepsStore (r_store st1) (d_store d')"
    using cleanupStore_keeps[OF assms(6,8)] assms(7) by simp
  have ok: "storeOK (d_store d')" and ks: "knownState (d_store d') = knownState (r_store st1)"
    and sa: "settledAll (d_store d') ds"
    using keepsStore_props[OF k] f assms(5) by simp_all
  have kn: "\<forall>r \<in> pendRefs structSection. known (d_store d') r"
    using f ks by (simp add: known_def)
  show ?thesis
    using applyUpdate_fixed[of "st1\<lparr>r_types := ts', r_transaction := tx', r_store := d_store d'\<rparr>"
        structSection ds rs rest] ok kn sa assms(3,4) by simp
qed

section \<open>Observer calls during the cleanup of a transaction\<close>

text \<open>
  Claim C8 says that \<open>doc._transaction\<close> is \<open>null\<close> whenever a shallow or deep observer
  is called. \<open>transact\<close> sets it to \<open>null\<close> once, before it calls the observers of a
  queued transaction, but an observer that calls \<open>transact\<close> sets it to a new
  transaction, and nothing resets it before the next observer is called. In the run below
  the observer of type 0 opens transaction 1, and the observer of type 1 is then called
  while \<open>doc._transaction\<close> is that transaction. The run ends normally, with
  \<open>doc._transaction\<close> \<open>null\<close> again.
\<close>

theorem transact_reentrant_observer:
  "map_option (\<lambda>(d, x, tr). (x, tr, d_transaction d))
     (transact reentrantEnv 3 emptyDoc insertTwo None []) =
   Some (None, [(Shallow 0, None), (Shallow 1, Some 1)], None)"
  by code_simp

end
